theory Spec2Isabelle
  imports Complex_Main "HOL-Library.Multiset"
begin

section \<open>Data model of \<^verbatim>\<open>main.c\<close>\<close>

text \<open>
  The program is a fixed-capacity graph with adjacency lists and a recursive depth-first
  traversal (\<^verbatim>\<open>dfs_topol\<close>) that colours vertices, stamps them, records predecessors and
  pushes every finished vertex on a queue that is printed afterwards.

  Conventions of the embedding.
  \<^item> A \<^verbatim>\<open>Vertex*\<close> always points into \<^verbatim>\<open>g->vertices\<close>; it is modelled by the position of
    the vertex in that array, and a write through it by \<open>upd_vertex\<close>.
  \<^item> Keys, stored neighbour indices and the \<^verbatim>\<open>-1\<close> sentinel of \<^verbatim>\<open>find\<close> are \<open>int\<close>; sizes
    and loop counters, which the code only counts upwards from \<^verbatim>\<open>0\<close>, are \<open>nat\<close>.
  \<^item> A failing \<^verbatim>\<open>assert\<close>, a dereferenced \<^verbatim>\<open>NULL\<close> and a violated precondition of the list or
    the queue are values of the type \<open>error\<close>; every fallible function returns
    \<open>error + result\<close>.
  \<^item> Allocation is taken to succeed; the \<^verbatim>\<open>DBG_PRINT\<close> diagnostics on \<^verbatim>\<open>stderr\<close> are left out.
\<close>

type_synonym Item = int

datatype eGraphColors = WHITE | GRAY | BLACK

datatype eGraphType = eGraphType_UNDIRECTED | eGraphType_DIRECTED

datatype error =
    AssertionFailed
  | NullPointer
  | OutOfBounds
  | CursorAtEnd
  | QueueFull
  | QueueEmpty

text \<open>Sequencing of fallible steps: the first error ends the run.\<close>

definition bind_err :: "error + 'a \<Rightarrow> ('a \<Rightarrow> error + 'b) \<Rightarrow> error + 'b" where
  "bind_err m f = (case m of Inl e \<Rightarrow> Inl e | Inr x \<Rightarrow> f x)"

subsection \<open>The adjacency list (\<^verbatim>\<open>List.h\<close>)\<close>

text \<open>
  Modelled from the spec: \<^verbatim>\<open>List.h\<close> (the types \<^verbatim>\<open>Data\<close> and \<^verbatim>\<open>List\<close> and the functions
  \<^verbatim>\<open>List_New\<close>, \<^verbatim>\<open>List_Push_back\<close>, \<^verbatim>\<open>List_Find\<close>, \<^verbatim>\<open>List_Cursor_front\<close>, \<^verbatim>\<open>List_Cursor_next\<close>,
  \<^verbatim>\<open>List_Cursor_end\<close>, \<^verbatim>\<open>List_Cursor_get\<close>) is not among the sources. The spec (3, 4.1) gives an
  ordered sequence of (neighbour index, weight) entries with one movable read cursor:
  reset to the first entry or to "end" if the list is empty, advance (a precondition
  violation at the end), an at-end test, and a read of the current entry (precondition:
  not at the end); \<^verbatim>\<open>contains\<close> is a linear scan comparing neighbour indices; \<^verbatim>\<open>insert\<close> at the
  back appends. The cursor is \<open>None\<close> at the end and \<open>Some i\<close> on the entry at position \<open>i\<close>.
\<close>

record Data =
  index :: int
  weight :: real

record List =
  entries :: "Data list"
  cursor :: "nat option"

definition List_New :: "List" where
  "List_New = \<lparr>entries = [], cursor = None\<rparr>"

definition List_Push_back :: "List \<Rightarrow> int \<Rightarrow> real \<Rightarrow> List" where
  "List_Push_back l i w = l\<lparr>entries := entries l @ [\<lparr>index = i, weight = w\<rparr>]\<rparr>"

fun scan_entries :: "Data list \<Rightarrow> int \<Rightarrow> bool" where
  "scan_entries [] i = False"
| "scan_entries (d # ds) i = (if index d = i then True else scan_entries ds i)"

definition List_Find :: "List \<Rightarrow> int \<Rightarrow> bool" where
  "List_Find l i = scan_entries (entries l) i"

definition List_Cursor_front :: "List \<Rightarrow> List" where
  "List_Cursor_front l = l\<lparr>cursor := (if entries l = [] then None else Some 0)\<rparr>"

definition List_Cursor_end :: "List \<Rightarrow> bool" where
  "List_Cursor_end l = (cursor l = None)"

definition List_Cursor_next :: "List \<Rightarrow> error + List" where
  "List_Cursor_next l =
     (case cursor l of
        None \<Rightarrow> Inl CursorAtEnd
      | Some i \<Rightarrow> Inr (l\<lparr>cursor := (if Suc i < length (entries l) then Some (Suc i) else None)\<rparr>))"

definition List_Cursor_get :: "List \<Rightarrow> error + Data" where
  "List_Cursor_get l =
     (case cursor l of
        None \<Rightarrow> Inl CursorAtEnd
      | Some i \<Rightarrow> (if i < length (entries l) then Inr (entries l ! i) else Inl CursorAtEnd))"

subsection \<open>The bounded queue (\<^verbatim>\<open>Queue.h\<close>)\<close>

text \<open>
  Modelled from the spec: \<^verbatim>\<open>Queue.h\<close> (the type \<^verbatim>\<open>Queue\<close> and \<^verbatim>\<open>Queue_New\<close>, \<^verbatim>\<open>Queue_Enqueue\<close>,
  \<^verbatim>\<open>Queue_Dequeue\<close>, \<^verbatim>\<open>Queue_Len\<close>) is not among the sources. The spec (4.2) gives a
  fixed-capacity FIFO of integers: \<^verbatim>\<open>enqueue\<close> appends at the tail and must not be called on a
  full queue, \<^verbatim>\<open>dequeue\<close> removes and returns the head and must not be called on an empty
  queue, \<^verbatim>\<open>length\<close> is the current count of stored elements. Both precondition violations
  are error values here.
\<close>

record Queue =
  items :: "int list"
  capacity :: nat

definition Queue_New :: "nat \<Rightarrow> Queue" where
  "Queue_New cap = \<lparr>items = [], capacity = cap\<rparr>"

definition Queue_Enqueue :: "Queue \<Rightarrow> int \<Rightarrow> error + Queue" where
  "Queue_Enqueue q x =
     (if length (items q) < capacity q then Inr (q\<lparr>items := items q @ [x]\<rparr>) else Inl QueueFull)"

definition Queue_Dequeue :: "Queue \<Rightarrow> error + (int \<times> Queue)" where
  "Queue_Dequeue q =
     (case items q of [] \<Rightarrow> Inl QueueEmpty | x # xs \<Rightarrow> Inr (x, q\<lparr>items := xs\<rparr>))"

definition Queue_Len :: "Queue \<Rightarrow> nat" where
  "Queue_Len q = length (items q)"

subsection \<open>Vertices\<close>

record Vertex =
  data :: Item
  neighbors :: "List option"
  distance :: int
  predecessor :: int
  color :: eGraphColors
  discovery_time :: int
  finish_time :: int

definition Vertex_HasNeighbors :: "Vertex \<Rightarrow> bool" where
  "Vertex_HasNeighbors v = (neighbors v \<noteq> None)"

definition Vertex_Start :: "Vertex \<Rightarrow> error + Vertex" where
  "Vertex_Start v =
     (case neighbors v of
        None \<Rightarrow> Inl NullPointer
      | Some l \<Rightarrow> Inr (v\<lparr>neighbors := Some (List_Cursor_front l)\<rparr>))"

definition Vertex_Next :: "Vertex \<Rightarrow> error + Vertex" where
  "Vertex_Next v =
     (case neighbors v of
        None \<Rightarrow> Inl NullPointer
      | Some l \<Rightarrow>
          (case List_Cursor_next l of
             Inl e \<Rightarrow> Inl e
           | Inr l' \<Rightarrow> Inr (v\<lparr>neighbors := Some l'\<rparr>)))"

definition Vertex_End :: "Vertex \<Rightarrow> error + bool" where
  "Vertex_End v =
     (case neighbors v of None \<Rightarrow> Inl NullPointer | Some l \<Rightarrow> Inr (List_Cursor_end l))"

definition Vertex_GetNeighborIndex :: "Vertex \<Rightarrow> error + Data" where
  "Vertex_GetNeighborIndex v =
     (case neighbors v of None \<Rightarrow> Inl NullPointer | Some l \<Rightarrow> List_Cursor_get l)"

definition Vertex_SetColor :: "Vertex \<Rightarrow> eGraphColors \<Rightarrow> Vertex" where
  "Vertex_SetColor v c = v\<lparr>color := c\<rparr>"

definition Vertex_GetColor :: "Vertex \<Rightarrow> eGraphColors" where
  "Vertex_GetColor v = color v"

definition Vertex_GetData :: "Vertex \<Rightarrow> int" where
  "Vertex_GetData v = data v"

definition Vertex_SetPredecessor :: "Vertex \<Rightarrow> int \<Rightarrow> Vertex" where
  "Vertex_SetPredecessor v predecessor_idx = v\<lparr>predecessor := predecessor_idx\<rparr>"

definition Vertex_GetPredecessor :: "Vertex \<Rightarrow> int" where
  "Vertex_GetPredecessor v = predecessor v"

definition Vertex_SetDiscovery_time :: "Vertex \<Rightarrow> int \<Rightarrow> Vertex" where
  "Vertex_SetDiscovery_time v time = v\<lparr>discovery_time := time\<rparr>"

definition Vertex_GetDiscovery_time :: "Vertex \<Rightarrow> int" where
  "Vertex_GetDiscovery_time v = discovery_time v"

definition Vertex_SetFinish_time :: "Vertex \<Rightarrow> int \<Rightarrow> Vertex" where
  "Vertex_SetFinish_time v time = v\<lparr>finish_time := time\<rparr>"

definition Vertex_GetFinish_time :: "Vertex \<Rightarrow> int" where
  "Vertex_GetFinish_time v = finish_time v"

subsection \<open>Graphs\<close>

text \<open>
  The field \<^verbatim>\<open>size\<close> is \<open>size'\<close> and \<^verbatim>\<open>type\<close> is \<open>type'\<close> here. \<open>zero_Vertex\<close> is a slot as
  \<^verbatim>\<open>calloc\<close> leaves it: every field zero, the list pointer \<^verbatim>\<open>NULL\<close>, the colour the first
  enumerator.
\<close>

record Graph =
  vertices :: "Vertex list"
  size' :: nat
  len :: nat
  type' :: eGraphType

definition zero_Vertex :: Vertex where
  "zero_Vertex =
     \<lparr>data = 0, neighbors = None, distance = 0, predecessor = 0, color = WHITE,
      discovery_time = 0, finish_time = 0\<rparr>"

definition upd_vertex :: "Graph \<Rightarrow> nat \<Rightarrow> (Vertex \<Rightarrow> Vertex) \<Rightarrow> Graph" where
  "upd_vertex g i f = g\<lparr>vertices := (vertices g)[i := f (vertices g ! i)]\<rparr>"

function find_from :: "Vertex list \<Rightarrow> nat \<Rightarrow> int \<Rightarrow> nat \<Rightarrow> int" where
  "find_from vs sz key i =
     (if i < sz then (if data (vs ! i) = key then int i else find_from vs sz key (Suc i))
      else -1)"
  by pat_completeness auto
termination
  by (relation "measure (\<lambda>(vs, sz, key, i). sz - i)") auto

definition find_idx :: "Vertex list \<Rightarrow> nat \<Rightarrow> int \<Rightarrow> int" where
  "find_idx vs sz key = find_from vs sz key 0"

definition find_neighbor :: "Vertex \<Rightarrow> int \<Rightarrow> bool" where
  "find_neighbor v i = (case neighbors v of Some l \<Rightarrow> List_Find l i | None \<Rightarrow> False)"

definition insert_nbr :: "Vertex \<Rightarrow> int \<Rightarrow> real \<Rightarrow> Vertex" where
  "insert_nbr vertex i weigth =
     (let vertex1 = (if neighbors vertex = None then vertex\<lparr>neighbors := Some List_New\<rparr>
                     else vertex)
      in case neighbors vertex1 of
           None \<Rightarrow> vertex1
         | Some l \<Rightarrow>
             (if find_neighbor vertex1 i then vertex1
              else vertex1\<lparr>neighbors := Some (List_Push_back l i weigth)\<rparr>))"

definition Graph_New :: "nat \<Rightarrow> eGraphType \<Rightarrow> error + Graph" where
  "Graph_New sz ty =
     (if 0 < sz
      then Inr \<lparr>vertices = replicate sz zero_Vertex, size' = sz, len = 0, type' = ty\<rparr>
      else Inl AssertionFailed)"

definition Graph_AddVertex :: "Graph \<Rightarrow> int \<Rightarrow> error + Graph" where
  "Graph_AddVertex g d =
     (if len g < size' g
      then Inr ((upd_vertex g (len g) (\<lambda>vertex. vertex\<lparr>data := d, neighbors := None\<rparr>))
                  \<lparr>len := Suc (len g)\<rparr>)
      else Inl AssertionFailed)"

definition Graph_GetSize :: "Graph \<Rightarrow> nat" where
  "Graph_GetSize g = size' g"

definition Graph_AddEdge :: "Graph \<Rightarrow> int \<Rightarrow> int \<Rightarrow> error + (bool \<times> Graph)" where
  "Graph_AddEdge g start finish =
     (if 0 < len g then
        (let start_idx = find_idx (vertices g) (size' g) start;
             finish_idx = find_idx (vertices g) (size' g) finish
         in if start_idx = -1 \<or> finish_idx = -1 then Inr (False, g)
            else
              (let g1 = upd_vertex g (nat start_idx) (\<lambda>v. insert_nbr v finish_idx 0);
                   g2 = (if type' g1 = eGraphType_UNDIRECTED
                         then upd_vertex g1 (nat finish_idx) (\<lambda>v. insert_nbr v start_idx 0)
                         else g1)
               in Inr (True, g2)))
      else Inl AssertionFailed)"

definition Graph_GetLen :: "Graph \<Rightarrow> nat" where
  "Graph_GetLen g = len g"

definition Graph_GetDataByIndex :: "Graph \<Rightarrow> int \<Rightarrow> error + Item" where
  "Graph_GetDataByIndex g vertex_idx =
     (if 0 \<le> vertex_idx \<and> vertex_idx < int (len g)
      then (if nat vertex_idx < length (vertices g) then Inr (data (vertices g ! nat vertex_idx))
            else Inl OutOfBounds)
      else Inl AssertionFailed)"

definition Graph_GetVertexByIndex :: "Graph \<Rightarrow> int \<Rightarrow> error + nat" where
  "Graph_GetVertexByIndex g vertex_idx =
     (if 0 \<le> vertex_idx \<and> vertex_idx < int (len g)
      then (if nat vertex_idx < length (vertices g) then Inr (nat vertex_idx)
            else Inl OutOfBounds)
      else Inl AssertionFailed)"

function key_from :: "Graph \<Rightarrow> Item \<Rightarrow> nat \<Rightarrow> nat option" where
  "key_from g key i =
     (if i < Graph_GetLen g
      then (if data (vertices g ! i) = key then Some i else key_from g key (Suc i))
      else None)"
  by pat_completeness auto
termination
  by (relation "measure (\<lambda>(g, key, i). Graph_GetLen g - i)") auto

definition Graph_GetVertexByKey :: "Graph \<Rightarrow> Item \<Rightarrow> nat option" where
  "Graph_GetVertexByKey g key = key_from g key 0"

definition Graph_Size :: "Graph \<Rightarrow> nat" where
  "Graph_Size g = size' g"

section \<open>The traversal\<close>

text \<open>
  \<^verbatim>\<open>dfs_topol_traverse\<close> is the recursive visit; its \<^verbatim>\<open>for\<close> loop over the neighbour list of
  \<^verbatim>\<open>v\<close>, which re-reads the list's cursor from the graph at every iteration, is the mutually
  recursive \<open>dfs_neighbors\<close>. A vertex pointer is a position in \<open>vertices g\<close>; a position
  outside the array has no counterpart among the pointers the code makes, and both
  functions answer it with \<open>OutOfBounds\<close>.

  The queue handle: \<^verbatim>\<open>dfs_topol\<close> passes \<^verbatim>\<open>&lista\<close> and the visit enqueues on \<^verbatim>\<open>&listado\<close>; with
  \<^verbatim>\<open>Queue.h\<close> absent the pointer level of these expressions cannot be followed, and the
  embedding takes them, as the spec's traversal does (4.5, step 4 of the visit), to
  denote the one recording queue that \<^verbatim>\<open>dfs_topol\<close> created.
\<close>

definition MAX_VERTICES :: nat where
  "MAX_VERTICES = 9"

function dfs_topol_traverse :: "Graph \<Rightarrow> nat \<Rightarrow> int \<Rightarrow> Queue \<Rightarrow> error + (Graph \<times> int \<times> Queue)"
  and dfs_neighbors :: "Graph \<Rightarrow> nat \<Rightarrow> int \<Rightarrow> Queue \<Rightarrow> error + (Graph \<times> int \<times> Queue)"
where
  "dfs_topol_traverse g v pTiempo listado =
     (if v < length (vertices g) then
      (let t1 = pTiempo + 1;
          g1 = upd_vertex g v (\<lambda>x. Vertex_SetDiscovery_time x t1);
          g2 = upd_vertex g1 v (\<lambda>x. Vertex_SetColor x GRAY)
      in case (if Vertex_HasNeighbors (vertices g2 ! v)
               then (case Vertex_Start (vertices g2 ! v) of
                       Inl e \<Rightarrow> Inl e
                     | Inr x \<Rightarrow> dfs_neighbors (upd_vertex g2 v (\<lambda>_. x)) v t1 listado)
               else Inr (g2, t1, listado)) of
           Inl e \<Rightarrow> Inl e
         | Inr (g3, t3, q3) \<Rightarrow>
             (let g4 = upd_vertex g3 v (\<lambda>x. Vertex_SetColor x BLACK);
                  t4 = t3 + 1;
                  g5 = upd_vertex g4 v (\<lambda>x. Vertex_SetDiscovery_time x t4)
              in case Queue_Enqueue q3 (data (vertices g5 ! v)) of
                   Inl e \<Rightarrow> Inl e
                 | Inr q4 \<Rightarrow> Inr (g5, t4, q4)))
      else Inl OutOfBounds)"
| "dfs_neighbors g v pTiempo listado =
     (if v < length (vertices g) then
      (case Vertex_End (vertices g ! v) of
        Inl e \<Rightarrow> Inl e
      | Inr at_end \<Rightarrow>
          if at_end then Inr (g, pTiempo, listado)
          else
            (case Vertex_GetNeighborIndex (vertices g ! v) of
               Inl e \<Rightarrow> Inl e
             | Inr d \<Rightarrow>
                 (case Graph_GetVertexByIndex g (index d) of
                    Inl e \<Rightarrow> Inl e
                  | Inr w \<Rightarrow>
                      (case (if Vertex_GetColor (vertices g ! w) = WHITE
                             then (let g1 = upd_vertex g w (\<lambda>x. Vertex_SetColor x GRAY);
                                       g2 = upd_vertex g1 w
                                              (\<lambda>x. Vertex_SetPredecessor x (Vertex_GetData (vertices g1 ! v)))
                                   in dfs_topol_traverse g2 w pTiempo listado)
                             else Inr (g, pTiempo, listado)) of
                         Inl e \<Rightarrow> Inl e
                       | Inr (g3, t3, q3) \<Rightarrow>
                           (case Vertex_Next (vertices g3 ! v) of
                              Inl e \<Rightarrow> Inl e
                            | Inr x \<Rightarrow> dfs_neighbors (upd_vertex g3 v (\<lambda>_. x)) v t3 q3)))))
      else Inl OutOfBounds)"
  by pat_completeness auto

function dfs_reset :: "Graph \<Rightarrow> nat \<Rightarrow> error + Graph" where
  "dfs_reset g i =
     (if i < Graph_GetLen g then
        (case Graph_GetVertexByIndex g (int i) of
           Inl e \<Rightarrow> Inl e
         | Inr v \<Rightarrow>
             (let g1 = upd_vertex g v (\<lambda>x. Vertex_SetColor x WHITE);
                  g2 = upd_vertex g1 v (\<lambda>x. Vertex_SetPredecessor x (- 1));
                  g3 = upd_vertex g2 v (\<lambda>x. Vertex_SetDiscovery_time x 0);
                  g4 = upd_vertex g3 v (\<lambda>x. Vertex_SetFinish_time x 0)
              in dfs_reset g4 (Suc i)))
      else Inr g)"
  by pat_completeness auto
termination
  by (relation "measure (\<lambda>(g, i). Graph_GetLen g - i)")
     (auto simp: Graph_GetLen_def upd_vertex_def)

function dfs_report :: "Graph \<Rightarrow> Queue \<Rightarrow> nat \<Rightarrow> (nat \<times> int \<times> int) list
                          \<Rightarrow> error + (Queue \<times> (nat \<times> int \<times> int) list)" where
  "dfs_report g lista i out =
     (if i < Queue_Len lista then
        (case Queue_Dequeue lista of
           Inl e \<Rightarrow> Inl e
         | Inr (guardado, lista') \<Rightarrow>
             (case Graph_GetVertexByKey g guardado of
                None \<Rightarrow> Inl NullPointer
              | Some v \<Rightarrow>
                  dfs_report g lista' (Suc i)
                    (out @ [(i, Vertex_GetData (vertices g ! v), Vertex_GetPredecessor (vertices g ! v))])))
      else Inr (lista, out))"
  by pat_completeness auto
termination
  by (relation "measure (\<lambda>(g, lista, i, out). Queue_Len lista - i)")
     (auto simp: Queue_Len_def Queue_Dequeue_def split: list.splits)

definition dfs_topol_visit :: "Graph \<Rightarrow> int \<Rightarrow> error + (Graph \<times> int \<times> Queue)" where
  "dfs_topol_visit g start =
     bind_err (dfs_reset g 0)
       (\<lambda>g1. let lista = Queue_New MAX_VERTICES
             in case Graph_GetVertexByKey g1 start of
                  None \<Rightarrow> Inl NullPointer
                | Some s \<Rightarrow>
                    (let g2 = upd_vertex g1 s (\<lambda>x. Vertex_SetColor x GRAY);
                         time = 0
                     in case Graph_GetVertexByKey g2 start of
                          None \<Rightarrow> Inl NullPointer
                        | Some s' \<Rightarrow> dfs_topol_traverse g2 s' time lista))"

definition dfs_topol :: "Graph \<Rightarrow> int \<Rightarrow> error + (Graph \<times> (nat \<times> int \<times> int) list)" where
  "dfs_topol g start =
     bind_err (dfs_topol_visit g start)
       (\<lambda>(g', time, lista).
           bind_err (dfs_report g' lista 0 []) (\<lambda>(lista', out). Inr (g', out)))"

fun add_vertices :: "Graph \<Rightarrow> int list \<Rightarrow> error + Graph" where
  "add_vertices g [] = Inr g"
| "add_vertices g (k # ks) = bind_err (Graph_AddVertex g k) (\<lambda>g'. add_vertices g' ks)"

fun add_edges :: "Graph \<Rightarrow> (int \<times> int) list \<Rightarrow> error + Graph" where
  "add_edges g [] = Inr g"
| "add_edges g ((a, b) # es) = bind_err (Graph_AddEdge g a b) (\<lambda>(ok, g'). add_edges g' es)"

definition main_graph :: "error + Graph" where
  "main_graph =
     bind_err (Graph_New MAX_VERTICES eGraphType_DIRECTED)
       (\<lambda>g. bind_err (add_vertices g [100, 200, 300, 400, 500, 600, 700, 800, 900])
          (\<lambda>g. add_edges g [(100, 400), (200, 400), (300, 400), (400, 600), (400, 800),
                             (500, 600), (600, 700), (700, 900), (800, 900)]))"

text \<open>The predecessor field of the vertex a key names, as the report loop reads it.\<close>

definition predecessor_of :: "Graph \<Rightarrow> Item \<Rightarrow> int option" where
  "predecessor_of g key =
     map_option (\<lambda>v. Vertex_GetPredecessor (vertices g ! v)) (Graph_GetVertexByKey g key)"

section \<open>Auxiliary notions for the proofs\<close>

text \<open>
  \<open>whites\<close> counts the white slots and \<open>cursor_left\<close> the entries a cursor has not passed;
  \<open>enter\<close>, \<open>leave\<close> and \<open>discover\<close> name the three groups of field writes of the visit, and
  \<open>dfs_body\<close> and \<open>dfs_visit_nbr\<close> the two conditionals around its recursive calls.
\<close>

definition whites :: "Graph \<Rightarrow> nat" where
  "whites g = length (filter (\<lambda>v. color v = WHITE) (vertices g))"

definition cursor_left :: "Graph \<Rightarrow> nat \<Rightarrow> nat" where
  "cursor_left g v =
     (case neighbors (vertices g ! v) of
        None \<Rightarrow> 0
      | Some l \<Rightarrow> (case cursor l of None \<Rightarrow> 0 | Some i \<Rightarrow> Suc (length (entries l) - i)))"

definition enter :: "Graph \<Rightarrow> nat \<Rightarrow> int \<Rightarrow> Graph" where
  "enter g v t1 =
     upd_vertex (upd_vertex g v (\<lambda>x. Vertex_SetDiscovery_time x t1)) v (\<lambda>x. Vertex_SetColor x GRAY)"

definition leave :: "Graph \<Rightarrow> nat \<Rightarrow> int \<Rightarrow> Graph" where
  "leave g v t4 =
     upd_vertex (upd_vertex g v (\<lambda>x. Vertex_SetColor x BLACK)) v (\<lambda>x. Vertex_SetDiscovery_time x t4)"

definition discover :: "Graph \<Rightarrow> nat \<Rightarrow> nat \<Rightarrow> Graph" where
  "discover g v w =
     upd_vertex (upd_vertex g w (\<lambda>x. Vertex_SetColor x GRAY)) w
       (\<lambda>x. Vertex_SetPredecessor x
              (Vertex_GetData (vertices (upd_vertex g w (\<lambda>x. Vertex_SetColor x GRAY)) ! v)))"

definition dfs_body :: "Graph \<Rightarrow> nat \<Rightarrow> int \<Rightarrow> Queue \<Rightarrow> error + (Graph \<times> int \<times> Queue)" where
  "dfs_body g v t q =
     (if Vertex_HasNeighbors (vertices (enter g v (t + 1)) ! v)
      then bind_err (Vertex_Start (vertices (enter g v (t + 1)) ! v))
             (\<lambda>x. dfs_neighbors (upd_vertex (enter g v (t + 1)) v (\<lambda>_. x)) v (t + 1) q)
      else Inr (enter g v (t + 1), t + 1, q))"

definition dfs_visit_nbr :: "Graph \<Rightarrow> nat \<Rightarrow> nat \<Rightarrow> int \<Rightarrow> Queue \<Rightarrow> error + (Graph \<times> int \<times> Queue)" where
  "dfs_visit_nbr g v w t q =
     (if Vertex_GetColor (vertices g ! w) = WHITE
      then dfs_topol_traverse (discover g v w) w t q
      else Inr (g, t, q))"

section \<open>Notions used in the statements\<close>

text \<open>
  The entries of a vertex's adjacency list (none while the list pointer is \<^verbatim>\<open>NULL\<close>), a run
  of \<^verbatim>\<open>insert\<close> calls on one vertex, and two small graphs as \<^verbatim>\<open>Graph_New\<close> and
  \<^verbatim>\<open>Graph_AddVertex\<close> build them: capacity 2 with the single key 5, and capacity 1 with the
  single key 1.
\<close>

definition nbr_entries :: "Vertex \<Rightarrow> Data list" where
  "nbr_entries v = (case neighbors v of None \<Rightarrow> [] | Some l \<Rightarrow> entries l)"

fun insert_all :: "Vertex \<Rightarrow> (int \<times> real) list \<Rightarrow> Vertex" where
  "insert_all v [] = v"
| "insert_all v ((i, w) # cs) = insert_all (insert_nbr v i w) cs"

definition two_slot_graph :: Graph where
  "two_slot_graph =
     \<lparr>vertices = [zero_Vertex\<lparr>data := 5\<rparr>, zero_Vertex], size' = 2, len = 1,
      type' = eGraphType_DIRECTED\<rparr>"

definition one_vertex_graph :: "eGraphType \<Rightarrow> Graph" where
  "one_vertex_graph ty =
     \<lparr>vertices = [zero_Vertex\<lparr>data := 1\<rparr>], size' = 1, len = 1, type' = ty\<rparr>"

text \<open>
  The directed graph that the adjacency lists describe. The successors of a vertex are the
  array positions its entries name; an edge leaves a populated vertex towards one of its
  successors; a vertex is reachable from \<open>s\<close> when a path of edges leads from \<open>s\<close> to it
  (\<open>s\<close> itself included).
\<close>

definition succs :: "Vertex \<Rightarrow> nat list" where
  "succs x = map (\<lambda>d. nat (index d)) (nbr_entries x)"

definition edges :: "Graph \<Rightarrow> (nat \<times> nat) set" where
  "edges g = {(a, b). a < len g \<and> a < length (vertices g) \<and> b \<in> set (succs (vertices g ! a))}"

definition reachable :: "Graph \<Rightarrow> nat \<Rightarrow> nat set" where
  "reachable g s = (edges g)\<^sup>* `` {s}"

text \<open>
  A graph is well formed when its array has \<^verbatim>\<open>size\<close> slots, at most \<^verbatim>\<open>size\<close> of them are
  populated, and every adjacency entry of a populated vertex names a populated vertex:
  what \<^verbatim>\<open>Graph_GetVertexByIndex\<close> asserts of each entry the traversal follows.
\<close>

definition Graph_inv :: "Graph \<Rightarrow> bool" where
  "Graph_inv g \<longleftrightarrow>
     length (vertices g) = size' g \<and> len g \<le> size' g \<and>
     list_all (\<lambda>x. list_all (\<lambda>d. 0 \<le> index d \<and> index d < int (len g)) (nbr_entries x))
       (take (len g) (vertices g))"

text \<open>
  The graph that \<^verbatim>\<open>main\<close> builds, and a chain of ten vertices 1 -> 2 -> ... -> 10 built
  with the same calls in a graph of capacity 10.
\<close>

definition demo_graph :: Graph where
  "demo_graph = projr main_graph"


section \<open>Invariants of the traversal\<close>

text \<open>
  What a visit never changes (key, adjacency entries, distance, finish time), and what a
  visit and a pass of the neighbour loop may change: a vertex other than the visited one
  is untouched or goes from WHITE to BLACK with a stamp inside the visit's interval of the
  counter; the loop moves only the cursor of its own vertex.
\<close>

definition skel :: "Vertex \<Rightarrow> int \<times> Data list option \<times> int \<times> int" where
  "skel x = (data x, map_option entries (neighbors x), distance x, finish_time x)"

definition same_shape :: "Graph \<Rightarrow> Graph \<Rightarrow> bool" where
  "same_shape g g' \<longleftrightarrow>
     length (vertices g') = length (vertices g) \<and> len g' = len g \<and> size' g' = size' g \<and>
     type' g' = type' g \<and> map skel (vertices g') = map skel (vertices g)"

definition chg :: "int \<Rightarrow> int \<Rightarrow> Graph \<Rightarrow> Graph \<Rightarrow> nat \<Rightarrow> bool" where
  "chg lo hi g g' u \<longleftrightarrow>
     vertices g' ! u = vertices g ! u \<or>
     (color (vertices g ! u) = WHITE \<and> color (vertices g' ! u) = BLACK \<and>
      lo < discovery_time (vertices g' ! u) \<and> discovery_time (vertices g' ! u) \<le> hi)"

definition visit_rel :: "Graph \<Rightarrow> nat \<Rightarrow> int \<Rightarrow> Graph \<Rightarrow> int \<Rightarrow> bool" where
  "visit_rel g v t g' t' \<longleftrightarrow>
     same_shape g g' \<and> t + 2 \<le> t' \<and>
     color (vertices g' ! v) = BLACK \<and> discovery_time (vertices g' ! v) = t' \<and>
     predecessor (vertices g' ! v) = predecessor (vertices g ! v) \<and>
     (\<forall>u<length (vertices g). u \<noteq> v \<longrightarrow> chg (t + 1) (t' - 1) g g' u)"

definition only_cursor :: "Vertex \<Rightarrow> Vertex \<Rightarrow> bool" where
  "only_cursor x y \<longleftrightarrow>
     data y = data x \<and> distance y = distance x \<and> predecessor y = predecessor x \<and>
     color y = color x \<and> discovery_time y = discovery_time x \<and> finish_time y = finish_time x \<and>
     map_option entries (neighbors y) = map_option entries (neighbors x)"

definition loop_rel :: "Graph \<Rightarrow> nat \<Rightarrow> int \<Rightarrow> Graph \<Rightarrow> int \<Rightarrow> bool" where
  "loop_rel g v t g' t' \<longleftrightarrow>
     same_shape g g' \<and> t \<le> t' \<and>
     only_cursor (vertices g ! v) (vertices g' ! v) \<and>
     (\<forall>u<length (vertices g). u \<noteq> v \<longrightarrow> chg t t' g g' u)"

text \<open>
  The number of entries the cursor has passed; a graph is black-closed when no BLACK
  populated vertex has a WHITE successor, and a loop closes its vertex when the successors
  from the cursor on are no longer WHITE. A run touches only vertices reachable from its
  start.
\<close>

definition passed :: "Vertex \<Rightarrow> nat" where
  "passed x =
     (case neighbors x of
        None \<Rightarrow> 0
      | Some l \<Rightarrow> (case cursor l of None \<Rightarrow> length (entries l) | Some i \<Rightarrow> i))"

definition black_closed :: "Graph \<Rightarrow> bool" where
  "black_closed g \<longleftrightarrow>
     (\<forall>u<len g. u < length (vertices g) \<longrightarrow> color (vertices g ! u) = BLACK \<longrightarrow>
        (\<forall>w\<in>set (succs (vertices g ! u)). w < length (vertices g) \<longrightarrow>
            color (vertices g ! w) \<noteq> WHITE))"

definition closes :: "Graph \<Rightarrow> nat \<Rightarrow> Graph \<Rightarrow> bool" where
  "closes g v g' \<longleftrightarrow>
     (\<forall>w\<in>set (drop (passed (vertices g ! v)) (succs (vertices g ! v))).
         w < length (vertices g) \<longrightarrow> color (vertices g' ! w) \<noteq> WHITE)"

definition touched_within :: "Graph \<Rightarrow> nat \<Rightarrow> Graph \<Rightarrow> bool" where
  "touched_within g v g' \<longleftrightarrow>
     (\<forall>u<length (vertices g). vertices g' ! u \<noteq> vertices g ! u \<longrightarrow> u \<in> reachable g v)"

text \<open>
  The vertices a run finishes, in finishing order, with their stamps, and the keys the
  run appends to the queue.
\<close>

definition blk :: "Graph \<Rightarrow> nat set" where
  "blk g = {u. u < length (vertices g) \<and> color (vertices g ! u) = BLACK}"

definition fin_seq :: "Graph \<Rightarrow> Graph \<Rightarrow> int \<Rightarrow> int \<Rightarrow> nat list \<Rightarrow> bool" where
  "fin_seq g g' t t' fs \<longleftrightarrow>
     distinct fs \<and> set fs = blk g' - blk g \<and> (\<forall>u\<in>set fs. u < len g) \<and>
     t' = t + 2 * int (length fs) \<and>
     sorted_wrt (<) (map (\<lambda>u. discovery_time (vertices g' ! u)) fs) \<and>
     (\<forall>u\<in>set fs. t < discovery_time (vertices g' ! u) \<and> discovery_time (vertices g' ! u) \<le> t')"

definition recorded :: "Graph \<Rightarrow> Queue \<Rightarrow> Queue \<Rightarrow> nat list \<Rightarrow> bool" where
  "recorded g q q' fs \<longleftrightarrow>
     items q' = items q @ map (\<lambda>u. data (vertices g ! u)) fs \<and> capacity q' = capacity q"

text \<open>
  The room left in the queue covers the vertices not yet BLACK; a cursor that can be read
  or is at the end.
\<close>

definition nonblack :: "Graph \<Rightarrow> nat set" where
  "nonblack g = {u. u < len g \<and> color (vertices g ! u) \<noteq> BLACK}"

definition budget :: "Graph \<Rightarrow> Queue \<Rightarrow> bool" where
  "budget g q \<longleftrightarrow> length (items q) + card (nonblack g) \<le> capacity q"

definition cursor_ok :: "Vertex \<Rightarrow> bool" where
  "cursor_ok x \<longleftrightarrow>
     (case neighbors x of
        None \<Rightarrow> False
      | Some l \<Rightarrow> (case cursor l of None \<Rightarrow> True | Some i \<Rightarrow> i < length (entries l)))"

text \<open>
  A vertex as the reset loop leaves it, and the graph on which the recursive visit starts:
  populated vertices reset, the start vertex GRAY.
\<close>

definition reset_vertex :: "Vertex \<Rightarrow> Vertex" where
  "reset_vertex x = x\<lparr>color := WHITE, predecessor := - 1, discovery_time := 0, finish_time := 0\<rparr>"

definition started :: "Graph \<Rightarrow> nat \<Rightarrow> Graph \<Rightarrow> bool" where
  "started g s g2 \<longleftrightarrow>
     length (vertices g2) = length (vertices g) \<and> len g2 = len g \<and> size' g2 = size' g \<and>
     (\<forall>u<length (vertices g). vertices g2 ! u =
        (if u < len g then (reset_vertex (vertices g ! u))\<lparr>color := (if u = s then GRAY else WHITE)\<rparr>
         else vertices g ! u))"

text \<open>
  An entry that passes the range assertion of \<^verbatim>\<open>Graph_GetVertexByIndex\<close>; the entries of
  BLACK vertices, and those from the cursor of the visited vertex on, have passed it.
\<close>

definition entry_ok :: "Graph \<Rightarrow> Data \<Rightarrow> bool" where
  "entry_ok g d \<longleftrightarrow> 0 \<le> index d \<and> index d < int (len g)"

definition black_valid :: "Graph \<Rightarrow> bool" where
  "black_valid g \<longleftrightarrow>
     (\<forall>u<len g. u < length (vertices g) \<longrightarrow> color (vertices g ! u) = BLACK \<longrightarrow>
        (\<forall>d\<in>set (nbr_entries (vertices g ! u)). entry_ok g d))"

definition rest_valid :: "Graph \<Rightarrow> nat \<Rightarrow> bool" where
  "rest_valid g v \<longleftrightarrow>
     (\<forall>d\<in>set (drop (passed (vertices g ! v)) (nbr_entries (vertices g ! v))). entry_ok g d)"

section \<open>Termination of the traversal\<close>

lemma filter_update_length:
  "length (filter P (xs[i := y])) =
     (if i < length xs
      then length (filter P xs) - (if P (xs ! i) then 1 else 0) + (if P y then 1 else 0)
      else length (filter P xs))"
proof (induction xs arbitrary: i)
  case Nil
  then show ?case by simp
next
  case (Cons x xs)
  show ?case
  proof (cases i)
    case 0
    then show ?thesis by simp
  next
    case (Suc j)
    have "P (xs ! j) \<Longrightarrow> j < length xs \<Longrightarrow> 0 < length (filter P xs)"
      by (metis filter_empty_conv length_greater_0_conv nth_mem)
    with Suc Cons.IH [of j] show ?thesis by auto
  qed
qed

lemma whites_upd_vertex:
  "whites (upd_vertex g i f) =
     (if i < length (vertices g)
      then whites g - (if color (vertices g ! i) = WHITE then 1 else 0)
           + (if color (f (vertices g ! i)) = WHITE then 1 else 0)
      else whites g)"
  by (simp add: whites_def upd_vertex_def filter_update_length)

lemma whites_upd_same_color:
  "color (f (vertices g ! i)) = color (vertices g ! i) \<Longrightarrow> whites (upd_vertex g i f) = whites g"
proof -
  assume a: "color (f (vertices g ! i)) = color (vertices g ! i)"
  have "color (vertices g ! i) = WHITE \<Longrightarrow> i < length (vertices g) \<Longrightarrow> 0 < whites g"
    unfolding whites_def
    by (metis (mono_tags, lifting) filter_empty_conv length_greater_0_conv nth_mem)
  with a show ?thesis by (auto simp: whites_upd_vertex)
qed

lemma whites_upd_nonwhite:
  "color (f (vertices g ! i)) \<noteq> WHITE \<Longrightarrow> whites (upd_vertex g i f) \<le> whites g"
  by (simp add: whites_upd_vertex)

lemma whites_upd_decrease:
  "i < length (vertices g) \<Longrightarrow> color (vertices g ! i) = WHITE \<Longrightarrow>
   color (f (vertices g ! i)) \<noteq> WHITE \<Longrightarrow> whites (upd_vertex g i f) < whites g"
proof -
  assume a: "i < length (vertices g)" "color (vertices g ! i) = WHITE"
    "color (f (vertices g ! i)) \<noteq> WHITE"
  have "0 < whites g"
    unfolding whites_def using a(1,2)
    by (metis (mono_tags, lifting) filter_empty_conv length_greater_0_conv nth_mem)
  with a show ?thesis by (simp add: whites_upd_vertex)
qed

lemma Vertex_Start_color: "Vertex_Start x = Inr y \<Longrightarrow> color y = color x"
  by (auto simp: Vertex_Start_def split: option.splits)

lemma Vertex_Next_color: "Vertex_Next x = Inr y \<Longrightarrow> color y = color x"
  by (auto simp: Vertex_Next_def split: option.splits sum.splits)

lemma bind_err_simps [simp]:
  "bind_err (Inl e) f = Inl e"
  "bind_err (Inr x) f = f x"
  by (simp_all add: bind_err_def)

lemma bind_err_eq_Inr: "bind_err m f = Inr y \<longleftrightarrow> (\<exists>x. m = Inr x \<and> f x = Inr y)"
  by (cases m) simp_all

lemma traverse_dom_bind:
  "dfs_topol_traverse_dfs_neighbors_dom (Inl (g, v, t, q)) \<Longrightarrow>
   dfs_topol_traverse g v t q =
    (if v < length (vertices g) then
     bind_err (dfs_body g v t q)
       (\<lambda>(g3, t3, q3).
           bind_err (Queue_Enqueue q3 (data (vertices (leave g3 v (t3 + 1)) ! v)))
             (\<lambda>q4. Inr (leave g3 v (t3 + 1), t3 + 1, q4)))
     else Inl OutOfBounds)"
  unfolding bind_err_def dfs_body_def enter_def leave_def
  by (subst dfs_topol_traverse.psimps, assumption) (unfold Let_def, rule refl)

lemma neighbors_dom_bind:
  "dfs_topol_traverse_dfs_neighbors_dom (Inr (g, v, t, q)) \<Longrightarrow>
   dfs_neighbors g v t q =
    (if v < length (vertices g) then
     bind_err (Vertex_End (vertices g ! v))
       (\<lambda>at_end. if at_end then Inr (g, t, q)
          else bind_err (Vertex_GetNeighborIndex (vertices g ! v))
                 (\<lambda>d. bind_err (Graph_GetVertexByIndex g (index d))
                    (\<lambda>w. bind_err (dfs_visit_nbr g v w t q)
                       (\<lambda>(g3, t3, q3). bind_err (Vertex_Next (vertices g3 ! v))
                           (\<lambda>x. dfs_neighbors (upd_vertex g3 v (\<lambda>_. x)) v t3 q3)))))
     else Inl OutOfBounds)"
  unfolding bind_err_def dfs_visit_nbr_def discover_def
  by (subst dfs_neighbors.psimps, assumption) (unfold Let_def, rule refl)

lemma whites_enter: "whites (enter g v t) \<le> whites g"
  unfolding enter_def
  by (rule order_trans [OF whites_upd_nonwhite])
     (simp_all add: Vertex_SetColor_def Vertex_SetDiscovery_time_def whites_upd_same_color)

lemma whites_leave: "whites (leave g v t) \<le> whites g"
  unfolding leave_def
  by (simp add: whites_upd_same_color Vertex_SetDiscovery_time_def)
     (simp add: whites_upd_nonwhite Vertex_SetColor_def)

lemma whites_discover_le: "whites (discover g v w) \<le> whites g"
  unfolding discover_def
  by (simp add: whites_upd_same_color Vertex_SetPredecessor_def)
     (simp add: whites_upd_nonwhite Vertex_SetColor_def)

lemma whites_discover_less:
  "w < length (vertices g) \<Longrightarrow> color (vertices g ! w) = WHITE \<Longrightarrow> whites (discover g v w) < whites g"
  unfolding discover_def
  by (simp add: whites_upd_same_color Vertex_SetPredecessor_def)
     (simp add: whites_upd_decrease Vertex_SetColor_def)

lemma whites_set_vertex:
  "color x = color (vertices g ! v) \<Longrightarrow> whites (upd_vertex g v (\<lambda>_. x)) = whites g"
  by (simp add: whites_upd_same_color)

lemma whites_dom:
  "dfs_topol_traverse_dfs_neighbors_dom (Inl (g, v, t, q)) \<Longrightarrow>
     dfs_topol_traverse g v t q = Inr (g', t', q') \<Longrightarrow> whites g' \<le> whites g"
  "dfs_topol_traverse_dfs_neighbors_dom (Inr (g, v, t, q)) \<Longrightarrow>
     dfs_neighbors g v t q = Inr (g', t', q') \<Longrightarrow> whites g' \<le> whites g"
proof (induct g v t q and g v t q arbitrary: g' t' q' and g' t' q'
       rule: dfs_topol_traverse_dfs_neighbors.pinduct)
  case (1 g v t q)
  from "1.prems" "1.hyps"(1) obtain g3 t3 q3 where
    body: "dfs_body g v t q = Inr (g3, t3, q3)" and g': "g' = leave g3 v (t3 + 1)"
    and vl: "v < length (vertices g)"
    by (auto simp: traverse_dom_bind bind_err_eq_Inr split: if_splits)
  have "whites g3 \<le> whites (enter g v (t + 1))"
  proof (cases "Vertex_HasNeighbors (vertices (enter g v (t + 1)) ! v)")
    case False
    with body show ?thesis by (auto simp: dfs_body_def)
  next
    case True
    with body obtain x where x: "Vertex_Start (vertices (enter g v (t + 1)) ! v) = Inr x"
      and l: "dfs_neighbors (upd_vertex (enter g v (t + 1)) v (\<lambda>_. x)) v (t + 1) q = Inr (g3, t3, q3)"
      by (auto simp: dfs_body_def bind_err_eq_Inr)
    have "whites g3 \<le> whites (upd_vertex (enter g v (t + 1)) v (\<lambda>_. x))"
      using "1.hyps"(2) [OF vl refl refl refl _ _ l [unfolded enter_def]] True x
      by (simp add: enter_def)
    then show ?thesis
      using Vertex_Start_color [OF x] by (simp add: whites_set_vertex)
  qed
  then show ?case
    using whites_enter [of g v "t + 1"] whites_leave [of g3 v "t3 + 1"] g' by simp
next
  case (2 g v t q)
  from "2.prems" "2.hyps"(1) have vl: "v < length (vertices g)"
    by (simp add: neighbors_dom_bind split: if_splits)
  from "2.prems" "2.hyps"(1) have
    eq: "bind_err (Vertex_End (vertices g ! v))
       (\<lambda>at_end. if at_end then Inr (g, t, q)
          else bind_err (Vertex_GetNeighborIndex (vertices g ! v))
                 (\<lambda>d. bind_err (Graph_GetVertexByIndex g (index d))
                    (\<lambda>w. bind_err (dfs_visit_nbr g v w t q)
                       (\<lambda>(g3, t3, q3). bind_err (Vertex_Next (vertices g3 ! v))
                           (\<lambda>x. dfs_neighbors (upd_vertex g3 v (\<lambda>_. x)) v t3 q3))))) = Inr (g', t', q')"
    by (simp add: neighbors_dom_bind split: if_splits)
  then obtain at_end where e: "Vertex_End (vertices g ! v) = Inr at_end"
    by (auto simp: bind_err_eq_Inr)
  show ?case
  proof (cases at_end)
    case True
    with eq e show ?thesis by simp
  next
    case False
    with eq e obtain d w g3 t3 q3 x where
      d: "Vertex_GetNeighborIndex (vertices g ! v) = Inr d"
      and w: "Graph_GetVertexByIndex g (index d) = Inr w"
      and n: "dfs_visit_nbr g v w t q = Inr (g3, t3, q3)"
      and x: "Vertex_Next (vertices g3 ! v) = Inr x"
      and l: "dfs_neighbors (upd_vertex g3 v (\<lambda>_. x)) v t3 q3 = Inr (g', t', q')"
      by (auto simp: bind_err_eq_Inr)
    have a: "whites g3 \<le> whites g"
    proof (cases "Vertex_GetColor (vertices g ! w) = WHITE")
      case True
      with n have "dfs_topol_traverse (discover g v w) w t q = Inr (g3, t3, q3)"
        by (simp add: dfs_visit_nbr_def)
      from "2.hyps"(2) [OF vl e False d w True refl refl this [unfolded discover_def]]
      show ?thesis using whites_discover_le [of g v w] by (simp add: discover_def)
    next
      case False
      with n show ?thesis by (simp add: dfs_visit_nbr_def)
    qed
    have raw: "(if Vertex_GetColor (vertices g ! w) = WHITE
                then let g1 = upd_vertex g w (\<lambda>x. Vertex_SetColor x GRAY);
                         g2 = upd_vertex g1 w
                                (\<lambda>x. Vertex_SetPredecessor x (Vertex_GetData (vertices g1 ! v)))
                     in dfs_topol_traverse g2 w t q
                else Inr (g, t, q)) = Inr (g3, t3, q3)"
      using n unfolding dfs_visit_nbr_def discover_def Let_def .
    have "whites g' \<le> whites (upd_vertex g3 v (\<lambda>_. x))"
      using "2.hyps"(3) [OF vl e False d w raw refl refl x l] by simp
    with a Vertex_Next_color [OF x] show ?thesis by (simp add: whites_set_vertex)
  qed
qed

lemma GetVertexByIndex_Inr:
  "Graph_GetVertexByIndex g i = Inr w \<longleftrightarrow>
     (0 \<le> i \<and> i < int (len g) \<and> w = nat i \<and> w < length (vertices g))"
  by (auto simp: Graph_GetVertexByIndex_def)

lemma Vertex_Next_cursor_left:
  assumes "Vertex_End (vertices g ! v) = Inr False"
    and "Vertex_GetNeighborIndex (vertices g ! v) = Inr d"
    and "Vertex_Next (vertices g ! v) = Inr x"
    and "v < length (vertices g)"
  shows "cursor_left (upd_vertex g v (\<lambda>_. x)) v < cursor_left g v"
proof -
  from assms(1) obtain l i where l: "neighbors (vertices g ! v) = Some l" "cursor l = Some i"
    by (auto simp: Vertex_End_def List_Cursor_end_def split: option.splits)
  with assms(2) have i: "i < length (entries l)"
    by (auto simp: Vertex_GetNeighborIndex_def List_Cursor_get_def split: if_splits)
  from assms(3) l have x: "x = (vertices g ! v)\<lparr>neighbors :=
      Some (l\<lparr>cursor := (if Suc i < length (entries l) then Some (Suc i) else None)\<rparr>)\<rparr>"
    by (auto simp: Vertex_Next_def List_Cursor_next_def)
  show ?thesis using assms(4) l i x by (auto simp: cursor_left_def upd_vertex_def)
qed

termination dfs_topol_traverse
proof (relation "(\<lambda>a. case a of Inl (g, v, t, q) \<Rightarrow> whites g | Inr (g, v, t, q) \<Rightarrow> whites g)
                 <*mlex*> (\<lambda>a. case a of Inl _ \<Rightarrow> Suc 0 | Inr _ \<Rightarrow> 0)
                 <*mlex*> measure (\<lambda>a. case a of Inl _ \<Rightarrow> 0 | Inr (g, v, t, q) \<Rightarrow> cursor_left g v)",
       goal_cases)
  case 1
  show ?case by (simp add: wf_mlex)
next
  case (2 g v pTiempo listado x xa xb b)
  have xb: "xb = enter g v x"
    using 2 by (simp add: enter_def)
  have "whites (upd_vertex xb v (\<lambda>_. b)) \<le> whites g"
    using Vertex_Start_color [OF 2(6)] whites_enter [of g v x] by (simp add: whites_set_vertex xb)
  then show ?case
    by (intro mlex_leq mlex_less) simp_all
next
  case (3 g v pTiempo listado b ba bb x xa)
  have xa: "xa = discover g v bb"
    using 3 by (simp add: discover_def)
  have "whites xa < whites g"
    unfolding xa using 3(5,6)
    by (intro whites_discover_less) (simp_all add: GetVertexByIndex_Inr Vertex_GetColor_def)
  then show ?case
    by (intro mlex_less) simp
next
  case (4 g v pTiempo listado b ba bb bc x y xa ya bd)
  note prems = 4
  show ?case
  proof (cases "Vertex_GetColor (vertices g ! bb) = WHITE")
    case True
    with prems have eq: "dfs_topol_traverse (discover g v bb) bb pTiempo listado = Inr (x, xa, ya)"
      by (auto simp: discover_def Let_def)
    have "whites x \<le> whites (discover g v bb)"
      using eq prems True by (intro whites_dom(1)) (auto simp: discover_def Let_def)
    moreover have "whites (discover g v bb) < whites g"
      using prems(5) True
      by (intro whites_discover_less) (simp_all add: GetVertexByIndex_Inr Vertex_GetColor_def)
    ultimately have "whites (upd_vertex x v (\<lambda>_. bd)) < whites g"
      using Vertex_Next_color [OF prems(9)] by (simp add: whites_set_vertex)
    then show ?thesis
      by (intro mlex_less) simp
  next
    case False
    with prems have x: "x = g"
      by auto
    have "cursor_left (upd_vertex g v (\<lambda>_. bd)) v < cursor_left g v"
      using prems x by (intro Vertex_Next_cursor_left [where d = ba]) auto
    moreover have "whites (upd_vertex g v (\<lambda>_. bd)) = whites g"
      using Vertex_Next_color [OF prems(9)] x by (simp add: whites_set_vertex)
    ultimately show ?thesis
      unfolding x by (intro mlex_leq) simp_all
  qed
qed

section \<open>The demonstration run\<close>

text \<open>
  C1 (as amended). On the graph that \<^verbatim>\<open>main\<close> builds (keys 100, 200, ..., 900 added in that
  order, then the nine directed edges in the order of \<^verbatim>\<open>main\<close>), \<^verbatim>\<open>dfs_topol(g, 100)\<close> returns
  and leaves the predecessor of 400 at 100, of 600 and of 800 at 400, of 700 at 600 and of
  900 at 700: the predecessor is written once, when a white vertex is discovered, and 900
  is discovered from 700 before 800 is visited.
\<close>

theorem C1_main_predecessors:
  "bind_err main_graph
     (\<lambda>g. bind_err (dfs_topol g 100)
        (\<lambda>(g', out). Inr (map (predecessor_of g') [400, 600, 800, 700, 900]))) =
   Inr [Some 100, Some 400, Some 400, Some 600, Some 700]"
  by code_simp

text \<open>
  C1 as stated expects the predecessor of 900 to be 800; the run does not end with these
  five predecessors.
\<close>

theorem C1_predecessor_900_is_not_800:
  "bind_err main_graph
     (\<lambda>g. bind_err (dfs_topol g 100)
        (\<lambda>(g', out). Inr (map (predecessor_of g') [400, 600, 800, 700, 900]))) \<noteq>
   Inr [Some 100, Some 400, Some 400, Some 600, Some 800]"
  by code_simp

text \<open>
  C2 (the code at the failing input). On the graph of \<^verbatim>\<open>main\<close> the visit from 100 enqueues
  six keys, and the report loop, whose bound \<^verbatim>\<open>Queue_Len(lista)\<close> shrinks with every
  \<^verbatim>\<open>Queue_Dequeue\<close> while \<^verbatim>\<open>i\<close> grows, prints three lines and leaves three keys in the queue.
\<close>

theorem C2_report_of_main_run:
  "bind_err main_graph
     (\<lambda>g. bind_err (dfs_topol_visit g 100)
        (\<lambda>(g', time, lista). bind_err (dfs_report g' lista 0 [])
           (\<lambda>(lista', out). Inr (items lista, out, items lista')))) =
   Inr ([900, 700, 600, 800, 400, 100],
        [(0, 900, 700), (1, 700, 600), (2, 600, 400)],
        [800, 400, 100])"
  by code_simp

section \<open>Key lookup\<close>


lemma find_from_first:
  "i \<le> k \<Longrightarrow> k < sz \<Longrightarrow> data (vs ! k) = key \<Longrightarrow>
   (\<And>j. i \<le> j \<Longrightarrow> j < k \<Longrightarrow> data (vs ! j) \<noteq> key) \<Longrightarrow> find_from vs sz key i = int k"
proof (induction vs sz key i rule: find_from.induct)
  case (1 vs sz key i)
  show ?case
  proof (cases "i = k")
    case True
    with 1 show ?thesis by (subst find_from.simps) simp
  next
    case False
    with 1 have "i < k" "data (vs ! i) \<noteq> key" by auto
    with 1 show ?thesis by (subst find_from.simps) simp
  qed
qed


lemma key_from_first:
  "i \<le> k \<Longrightarrow> k < len g \<Longrightarrow> data (vertices g ! k) = key \<Longrightarrow>
   (\<And>j. i \<le> j \<Longrightarrow> j < k \<Longrightarrow> data (vertices g ! j) \<noteq> key) \<Longrightarrow> key_from g key i = Some k"
proof (induction g key i rule: key_from.induct)
  case (1 g key i)
  show ?case
  proof (cases "i = k")
    case True
    with 1 show ?thesis by (subst key_from.simps) (simp add: Graph_GetLen_def)
  next
    case False
    with 1 have "i < k" "data (vertices g ! i) \<noteq> key" by auto
    with 1 show ?thesis by (subst key_from.simps) (simp add: Graph_GetLen_def)
  qed
qed


lemma two_slot_graph_built:
  "bind_err (Graph_New 2 eGraphType_DIRECTED) (\<lambda>g. Graph_AddVertex g 5) = Inr two_slot_graph"
  by code_simp


text \<open>
  C5 (the code at the failing input). In the graph of capacity 2 that holds the single
  key 5, the key 0 names no populated vertex; \<^verbatim>\<open>Graph_AddEdge(g, 5, 0)\<close> nevertheless resolves
  0 to the unpopulated slot 1, returns true and appends that index to the list of vertex
  5, and a traversal from 5 then fails the range assertion of \<^verbatim>\<open>Graph_GetVertexByIndex\<close>.
\<close>

theorem C5_addEdge_zero_key:
  "Graph_GetVertexByKey two_slot_graph 0 = None \<and>
   Graph_AddEdge two_slot_graph 5 0 =
     Inr (True, upd_vertex two_slot_graph 0
                  (\<lambda>v. v\<lparr>neighbors := Some \<lparr>entries = [\<lparr>index = 1, weight = 0\<rparr>], cursor = None\<rparr>\<rparr>)) \<and>
   dfs_topol (snd (projr (Graph_AddEdge two_slot_graph 5 0))) 5 = Inl AssertionFailed"
  by code_simp

section \<open>Insertion into an adjacency list\<close>

lemma scan_entries_iff: "scan_entries ds i \<longleftrightarrow> i \<in> set (map index ds)"
  by (induction ds) auto

lemma find_neighbor_iff: "find_neighbor v i \<longleftrightarrow> i \<in> set (map index (nbr_entries v))"
  by (simp add: find_neighbor_def nbr_entries_def List_Find_def scan_entries_iff split: option.splits)

lemma insert_nbr_present:
  "i \<in> set (map index (nbr_entries v)) \<Longrightarrow> insert_nbr v i w = v"
  by (cases "neighbors v") (simp_all add: insert_nbr_def find_neighbor_iff nbr_entries_def)

lemma insert_nbr_absent:
  "i \<notin> set (map index (nbr_entries v)) \<Longrightarrow>
   nbr_entries (insert_nbr v i w) = nbr_entries v @ [\<lparr>index = i, weight = w\<rparr>]"
  by (cases "neighbors v")
     (simp_all add: insert_nbr_def find_neighbor_def List_Find_def scan_entries_iff nbr_entries_def
        List_New_def List_Push_back_def)

lemma insert_all_snoc: "insert_all v (cs @ [(i, w)]) = insert_nbr (insert_all v cs) i w"
  by (induction v cs rule: insert_all.induct) simp_all

lemma keep_first_snoc:
  "rev (remdups (rev (xs @ [x]))) =
     (if x \<in> set xs then rev (remdups (rev xs)) else rev (remdups (rev xs)) @ [x])"
  by simp

lemma insert_all_indices:
  "distinct (map index (nbr_entries v)) \<Longrightarrow>
   map index (nbr_entries (insert_all v cs)) =
     rev (remdups (rev (map index (nbr_entries v) @ map fst cs)))"
proof (induction cs rule: rev_induct)
  case Nil
  then show ?case by (simp add: distinct_remdups_id)
next
  case (snoc c cs)
  obtain i w where c: "c = (i, w)" by (cases c)
  let ?u = "insert_all v cs"
  have ih: "map index (nbr_entries ?u) = rev (remdups (rev (map index (nbr_entries v) @ map fst cs)))"
    using snoc by simp
  let ?X = "map index (nbr_entries v) @ map fst cs"
  have mem: "i \<in> set (map index (nbr_entries ?u)) \<longleftrightarrow> i \<in> set ?X"
    unfolding ih by auto
  have "map index (nbr_entries v) @ map fst (cs @ [c]) = ?X @ [i]"
    by (simp add: c)
  then have rhs: "rev (remdups (rev (map index (nbr_entries v) @ map fst (cs @ [c])))) =
      (if i \<in> set ?X then rev (remdups (rev ?X)) else rev (remdups (rev ?X)) @ [i])"
    by (simp only: keep_first_snoc)
  have lhs: "insert_all v (cs @ [c]) = insert_nbr ?u i w"
    by (simp only: c insert_all_snoc)
  show ?case
  proof (cases "i \<in> set (map index (nbr_entries ?u))")
    case True
    then have "insert_nbr ?u i w = ?u" by (rule insert_nbr_present)
    with True mem ih show ?thesis
      by (simp only: lhs rhs if_True)
  next
    case False
    then have "nbr_entries (insert_nbr ?u i w) = nbr_entries ?u @ [\<lparr>index = i, weight = w\<rparr>]"
      by (rule insert_nbr_absent)
    then have "map index (nbr_entries (insert_nbr ?u i w)) = map index (nbr_entries ?u) @ [i]"
      by simp
    with False mem ih show ?thesis
      by (simp only: lhs rhs if_False)
  qed
qed

text \<open>
  C6. Whatever sequence of \<^verbatim>\<open>insert\<close> calls is applied to a vertex whose list has no
  repeated neighbour index (a fresh vertex in particular), the resulting list has none
  either, and its indices are the first occurrences, in order, of the old indices followed
  by the inserted ones; an insert of an index already present leaves the vertex as it is,
  and any other insert appends its entry at the back.
\<close>

theorem C6_insert_unique_in_first_insertion_order:
  "distinct (map index (nbr_entries v)) \<longrightarrow>
     distinct (map index (nbr_entries (insert_all v cs))) \<and>
     map index (nbr_entries (insert_all v cs)) =
       rev (remdups (rev (map index (nbr_entries v) @ map fst cs))) \<and>
     (i \<in> set (map index (nbr_entries v)) \<longrightarrow> insert_nbr v i w = v) \<and>
     (i \<notin> set (map index (nbr_entries v)) \<longrightarrow>
        nbr_entries (insert_nbr v i w) = nbr_entries v @ [\<lparr>index = i, weight = w\<rparr>])"
  by (simp add: insert_all_indices insert_nbr_present insert_nbr_absent del: set_map map_append)

theorem C6_insert_witness:
  "distinct (map index (nbr_entries zero_Vertex)) \<and>
   map index (nbr_entries (insert_all zero_Vertex [(3, 0), (1, 0), (3, 0), (2, 0), (1, 0)])) = [3, 1, 2] \<and>
   insert_nbr (insert_nbr zero_Vertex 3 0) 3 0 = insert_nbr zero_Vertex 3 0 \<and>
   nbr_entries (insert_nbr zero_Vertex 3 0) = [\<lparr>index = 3, weight = 0\<rparr>]"
proof -
  have d: "distinct (map index (nbr_entries zero_Vertex))"
    by (simp add: nbr_entries_def zero_Vertex_def)
  have e: "nbr_entries zero_Vertex = []"
    by (simp add: nbr_entries_def zero_Vertex_def)
  have p: "nbr_entries (insert_nbr zero_Vertex 3 0) = [\<lparr>index = 3, weight = 0\<rparr>]"
    using C6_insert_unique_in_first_insertion_order [of zero_Vertex "[]" 3 0] d e by simp
  have "insert_nbr (insert_nbr zero_Vertex 3 0) 3 0 = insert_nbr zero_Vertex 3 0"
    using C6_insert_unique_in_first_insertion_order [of "insert_nbr zero_Vertex 3 0" "[]" 3 0] p
    by simp
  with d p C6_insert_unique_in_first_insertion_order
      [of zero_Vertex "[(3, 0), (1, 0), (3, 0), (2, 0), (1, 0)]" 3 0]
  show ?thesis by (simp add: e)
qed

section \<open>Self-loops\<close>

lemma key_from_Some:
  "key_from g key i = Some k \<Longrightarrow>
   i \<le> k \<and> k < len g \<and> data (vertices g ! k) = key \<and>
   (\<forall>j. i \<le> j \<and> j < k \<longrightarrow> data (vertices g ! j) \<noteq> key)"
proof (induction g key i rule: key_from.induct)
  case (1 g key i)
  show ?case
  proof (cases "i < len g \<and> data (vertices g ! i) \<noteq> key")
    case True
    with "1.prems" have "key_from g key (Suc i) = Some k"
      by (subst (asm) key_from.simps) (simp add: Graph_GetLen_def)
    with True "1.IH" have
      "Suc i \<le> k \<and> k < len g \<and> data (vertices g ! k) = key \<and>
       (\<forall>j. Suc i \<le> j \<and> j < k \<longrightarrow> data (vertices g ! j) \<noteq> key)"
      by (simp add: Graph_GetLen_def)
    with True show ?thesis
      by (auto simp: less_Suc_eq_le dest: le_neq_implies_less)
  next
    case False
    with "1.prems" show ?thesis
      by (subst (asm) key_from.simps) (auto simp: Graph_GetLen_def split: if_splits)
  qed
qed

lemma GetVertexByKey_Some:
  "Graph_GetVertexByKey g key = Some k \<Longrightarrow>
   k < len g \<and> data (vertices g ! k) = key \<and> (\<forall>j<k. data (vertices g ! j) \<noteq> key)"
  unfolding Graph_GetVertexByKey_def by (drule key_from_Some) simp

lemma find_idx_populated:
  assumes "Graph_GetVertexByKey g key = Some k" and "len g \<le> size' g"
  shows "find_idx (vertices g) (size' g) key = int k"
  unfolding find_idx_def using GetVertexByKey_Some [OF assms(1)] assms(2)
  by (intro find_from_first) simp_all

lemma insert_nbr_twice: "insert_nbr (insert_nbr v i w) i w' = insert_nbr v i w"
proof (cases "i \<in> set (map index (nbr_entries v))")
  case True
  then show ?thesis by (simp only: insert_nbr_present)
next
  case False
  then have "i \<in> set (map index (nbr_entries (insert_nbr v i w)))"
    by (simp add: insert_nbr_absent)
  then show ?thesis by (rule insert_nbr_present)
qed

lemma upd_vertex_twice:
  "upd_vertex (upd_vertex g i f) i h = upd_vertex g i (\<lambda>v. h (f v))"
  by (cases "i < length (vertices g)") (simp_all add: upd_vertex_def list_update_beyond)

text \<open>
  C9 (as amended). In a graph of either type whose key \<open>k\<close> names the populated vertex \<open>s\<close>,
  \<^verbatim>\<open>Graph_AddEdge(g, k, k)\<close> returns true and its whole effect is one \<^verbatim>\<open>insert\<close> of the index
  \<open>s\<close> into the list of \<open>s\<close>: one entry is appended if the list did not hold \<open>s\<close> yet, none if
  it did, and never two.
\<close>

theorem C9_self_loop_adds_at_most_one_entry:
  "len g \<le> size' g \<and> size' g = length (vertices g) \<and> Graph_GetVertexByKey g k = Some s \<longrightarrow>
     Graph_AddEdge g k k = Inr (True, upd_vertex g s (\<lambda>v. insert_nbr v (int s) 0)) \<and>
     nbr_entries (vertices (upd_vertex g s (\<lambda>v. insert_nbr v (int s) 0)) ! s) =
       (if int s \<in> set (map index (nbr_entries (vertices g ! s)))
        then nbr_entries (vertices g ! s)
        else nbr_entries (vertices g ! s) @ [\<lparr>index = int s, weight = 0\<rparr>])"
proof (intro impI, elim conjE)
  assume le: "len g \<le> size' g" and sz: "size' g = length (vertices g)"
    and k: "Graph_GetVertexByKey g k = Some s"
  from GetVertexByKey_Some [OF k] have s: "s < len g" by simp
  have f: "find_idx (vertices g) (size' g) k = int s"
    using k le by (rule find_idx_populated)
  have "Graph_AddEdge g k k = Inr (True, upd_vertex g s (\<lambda>v. insert_nbr v (int s) 0))"
    using s by (simp add: Graph_AddEdge_def f Let_def upd_vertex_twice insert_nbr_twice)
  moreover have "nbr_entries (vertices (upd_vertex g s (\<lambda>v. insert_nbr v (int s) 0)) ! s) =
       (if int s \<in> set (map index (nbr_entries (vertices g ! s)))
        then nbr_entries (vertices g ! s)
        else nbr_entries (vertices g ! s) @ [\<lparr>index = int s, weight = 0\<rparr>])"
    using s le sz by (simp add: upd_vertex_def insert_nbr_present insert_nbr_absent del: set_map)
  ultimately show "Graph_AddEdge g k k = Inr (True, upd_vertex g s (\<lambda>v. insert_nbr v (int s) 0)) \<and>
     nbr_entries (vertices (upd_vertex g s (\<lambda>v. insert_nbr v (int s) 0)) ! s) =
       (if int s \<in> set (map index (nbr_entries (vertices g ! s)))
        then nbr_entries (vertices g ! s)
        else nbr_entries (vertices g ! s) @ [\<lparr>index = int s, weight = 0\<rparr>])"
    by simp
qed

lemma one_vertex_graph_built:
  "bind_err (Graph_New 1 ty) (\<lambda>g. Graph_AddVertex g 1) = Inr (one_vertex_graph ty)"
  by (simp add: Graph_New_def Graph_AddVertex_def upd_vertex_def one_vertex_graph_def zero_Vertex_def)

theorem C9_self_loop_witness:
  "Graph_GetVertexByKey (one_vertex_graph eGraphType_UNDIRECTED) 1 = Some 0 \<and>
   map (\<lambda>ty. map_sum id (\<lambda>(ok, g'). (ok, nbr_entries (vertices g' ! 0)))
                (Graph_AddEdge (one_vertex_graph ty) 1 1))
       [eGraphType_UNDIRECTED, eGraphType_DIRECTED] =
     [Inr (True, [\<lparr>index = 0, weight = 0\<rparr>]), Inr (True, [\<lparr>index = 0, weight = 0\<rparr>])]"
proof -
  have k: "Graph_GetVertexByKey (one_vertex_graph ty) 1 = Some 0" for ty
    by code_simp
  have n: "nbr_entries (vertices (one_vertex_graph ty) ! 0) = []" for ty
    by (simp add: one_vertex_graph_def nbr_entries_def zero_Vertex_def)
  have h: "len (one_vertex_graph ty) \<le> size' (one_vertex_graph ty) \<and>
        size' (one_vertex_graph ty) = length (vertices (one_vertex_graph ty)) \<and>
        Graph_GetVertexByKey (one_vertex_graph ty) 1 = Some 0" for ty
    using k by (simp add: one_vertex_graph_def)
  have "Graph_AddEdge (one_vertex_graph ty) 1 1 =
          Inr (True, upd_vertex (one_vertex_graph ty) 0 (\<lambda>v. insert_nbr v (int 0) 0)) \<and>
        nbr_entries (vertices (upd_vertex (one_vertex_graph ty) 0 (\<lambda>v. insert_nbr v (int 0) 0)) ! 0) =
          [\<lparr>index = int 0, weight = 0\<rparr>]" for ty
    using C9_self_loop_adds_at_most_one_entry [of "one_vertex_graph ty" 1 0, THEN mp, OF h [of ty]]
    by (simp add: n)
  with k show ?thesis by simp
qed

text \<open>
  C9 as stated promises exactly one appended entry for every such graph; a second
  \<^verbatim>\<open>Graph_AddEdge(g, 1, 1)\<close> on the one-vertex graph appends none.
\<close>

theorem C9_second_self_loop_adds_nothing:
  "bind_err (Graph_AddEdge (one_vertex_graph eGraphType_UNDIRECTED) 1 1)
     (\<lambda>(ok1, g1). bind_err (Graph_AddEdge g1 1 1)
        (\<lambda>(ok2, g2). Inr (ok2, length (nbr_entries (vertices g1 ! 0)),
                           length (nbr_entries (vertices g2 ! 0))))) =
   Inr (True, 1, 1)"
  by code_simp

section \<open>What a visit changes\<close>

declare dfs_topol_traverse.simps [simp del] dfs_neighbors.simps [simp del]

lemma traverse_bind:
  "dfs_topol_traverse g v t q =
    (if v < length (vertices g) then
     bind_err (dfs_body g v t q)
       (\<lambda>(g3, t3, q3).
           bind_err (Queue_Enqueue q3 (data (vertices (leave g3 v (t3 + 1)) ! v)))
             (\<lambda>q4. Inr (leave g3 v (t3 + 1), t3 + 1, q4)))
     else Inl OutOfBounds)"
  unfolding bind_err_def dfs_body_def enter_def leave_def
  by (subst dfs_topol_traverse.simps) (unfold Let_def, rule refl)

lemma neighbors_bind:
  "dfs_neighbors g v t q =
    (if v < length (vertices g) then
     bind_err (Vertex_End (vertices g ! v))
       (\<lambda>at_end. if at_end then Inr (g, t, q)
          else bind_err (Vertex_GetNeighborIndex (vertices g ! v))
                 (\<lambda>d. bind_err (Graph_GetVertexByIndex g (index d))
                    (\<lambda>w. bind_err (dfs_visit_nbr g v w t q)
                       (\<lambda>(g3, t3, q3). bind_err (Vertex_Next (vertices g3 ! v))
                           (\<lambda>x. dfs_neighbors (upd_vertex g3 v (\<lambda>_. x)) v t3 q3)))))
     else Inl OutOfBounds)"
  unfolding bind_err_def dfs_visit_nbr_def discover_def
  by (subst dfs_neighbors.simps) (unfold Let_def, rule refl)

text \<open>Successful runs, decomposed.\<close>

lemma traverse_InrE:
  assumes "dfs_topol_traverse g v t q = Inr (g', t', q')"
  obtains g3 t3 q3 where "v < length (vertices g)" "dfs_body g v t q = Inr (g3, t3, q3)"
    "g' = leave g3 v (t3 + 1)" "t' = t3 + 1"
    "Queue_Enqueue q3 (data (vertices (leave g3 v (t3 + 1)) ! v)) = Inr q'"
proof -
  from assms have vl: "v < length (vertices g)"
    by (subst (asm) traverse_bind) (simp split: if_splits)
  from assms vl obtain g3 t3 q3 where
    b: "dfs_body g v t q = Inr (g3, t3, q3)"
    and r: "bind_err (Queue_Enqueue q3 (data (vertices (leave g3 v (t3 + 1)) ! v)))
             (\<lambda>q4. Inr (leave g3 v (t3 + 1), t3 + 1, q4)) = Inr (g', t', q')"
    by (subst (asm) traverse_bind) (auto simp: bind_err_eq_Inr)
  from r have "g' = leave g3 v (t3 + 1)" "t' = t3 + 1"
    "Queue_Enqueue q3 (data (vertices (leave g3 v (t3 + 1)) ! v)) = Inr q'"
    by (auto simp: bind_err_eq_Inr)
  with vl b show thesis by (rule that)
qed

lemma body_InrE:
  assumes "dfs_body g v t q = Inr (g3, t3, q3)"
  obtains (leaf) "\<not> Vertex_HasNeighbors (vertices (enter g v (t + 1)) ! v)"
      "g3 = enter g v (t + 1)" "t3 = t + 1" "q3 = q"
  | (inner) x where "Vertex_HasNeighbors (vertices (enter g v (t + 1)) ! v)"
      "Vertex_Start (vertices (enter g v (t + 1)) ! v) = Inr x"
      "dfs_neighbors (upd_vertex (enter g v (t + 1)) v (\<lambda>_. x)) v (t + 1) q = Inr (g3, t3, q3)"
proof (cases "Vertex_HasNeighbors (vertices (enter g v (t + 1)) ! v)")
  case False
  with assms have "g3 = enter g v (t + 1)" "t3 = t + 1" "q3 = q"
    by (auto simp: dfs_body_def)
  with False show thesis by (rule leaf)
next
  case True
  with assms obtain x where "Vertex_Start (vertices (enter g v (t + 1)) ! v) = Inr x"
    "dfs_neighbors (upd_vertex (enter g v (t + 1)) v (\<lambda>_. x)) v (t + 1) q = Inr (g3, t3, q3)"
    by (auto simp: dfs_body_def bind_err_eq_Inr)
  with True show thesis by (rule inner)
qed

lemma neighbors_InrE:
  assumes "dfs_neighbors g v t q = Inr (g', t', q')"
  obtains (at_end) "v < length (vertices g)" "Vertex_End (vertices g ! v) = Inr True"
      "g' = g" "t' = t" "q' = q"
  | (step) d w g3 t3 q3 x where "v < length (vertices g)"
      "Vertex_End (vertices g ! v) = Inr False"
      "Vertex_GetNeighborIndex (vertices g ! v) = Inr d"
      "Graph_GetVertexByIndex g (index d) = Inr w"
      "dfs_visit_nbr g v w t q = Inr (g3, t3, q3)"
      "Vertex_Next (vertices g3 ! v) = Inr x"
      "dfs_neighbors (upd_vertex g3 v (\<lambda>_. x)) v t3 q3 = Inr (g', t', q')"
proof -
  from assms have vl: "v < length (vertices g)"
    by (simp add: neighbors_bind split: if_splits)
  from assms vl obtain at_end where e: "Vertex_End (vertices g ! v) = Inr at_end"
    by (auto simp: neighbors_bind bind_err_eq_Inr)
  show thesis
  proof (cases at_end)
    case True
    with assms vl e have "g' = g" "t' = t" "q' = q"
      by (subst (asm) neighbors_bind, simp)+
    with vl e True show ?thesis by (intro at_end) simp_all
  next
    case False
    with assms vl e obtain d w g3 t3 q3 x where
      "Vertex_GetNeighborIndex (vertices g ! v) = Inr d"
      "Graph_GetVertexByIndex g (index d) = Inr w"
      "dfs_visit_nbr g v w t q = Inr (g3, t3, q3)"
      "Vertex_Next (vertices g3 ! v) = Inr x"
      "dfs_neighbors (upd_vertex g3 v (\<lambda>_. x)) v t3 q3 = Inr (g', t', q')"
      by (subst (asm) neighbors_bind) (auto simp: bind_err_eq_Inr)
    with vl e False show ?thesis by (intro step) simp_all
  qed
qed

lemma visit_nbr_InrE:
  assumes "dfs_visit_nbr g v w t q = Inr (g3, t3, q3)"
  obtains (white) "color (vertices g ! w) = WHITE"
      "dfs_topol_traverse (discover g v w) w t q = Inr (g3, t3, q3)"
  | (seen) "color (vertices g ! w) \<noteq> WHITE" "g3 = g" "t3 = t" "q3 = q"
proof (cases "color (vertices g ! w) = WHITE")
  case True
  with assms have "dfs_topol_traverse (discover g v w) w t q = Inr (g3, t3, q3)"
    by (simp add: dfs_visit_nbr_def Vertex_GetColor_def)
  with True show thesis by (rule white)
next
  case False
  with assms have "g3 = g" "t3 = t" "q3 = q"
    by (auto simp: dfs_visit_nbr_def Vertex_GetColor_def)
  with False show thesis by (rule seen)
qed

text \<open>The induction rule of the traversal, with the steps named.\<close>

lemma dfs_induct [case_names traverse neighbors]:
  assumes T: "\<And>g v t q.
      (\<And>x. v < length (vertices g) \<Longrightarrow>
         Vertex_HasNeighbors (vertices (enter g v (t + 1)) ! v) \<Longrightarrow>
         Vertex_Start (vertices (enter g v (t + 1)) ! v) = Inr x \<Longrightarrow>
         Q (upd_vertex (enter g v (t + 1)) v (\<lambda>_. x)) v (t + 1) q) \<Longrightarrow> P g v t q"
    and N: "\<And>g v t q.
      (\<And>d w. v < length (vertices g) \<Longrightarrow> Vertex_End (vertices g ! v) = Inr False \<Longrightarrow>
         Vertex_GetNeighborIndex (vertices g ! v) = Inr d \<Longrightarrow>
         Graph_GetVertexByIndex g (index d) = Inr w \<Longrightarrow>
         color (vertices g ! w) = WHITE \<Longrightarrow> P (discover g v w) w t q) \<Longrightarrow>
      (\<And>d w g3 t3 q3 x. v < length (vertices g) \<Longrightarrow> Vertex_End (vertices g ! v) = Inr False \<Longrightarrow>
         Vertex_GetNeighborIndex (vertices g ! v) = Inr d \<Longrightarrow>
         Graph_GetVertexByIndex g (index d) = Inr w \<Longrightarrow>
         dfs_visit_nbr g v w t q = Inr (g3, t3, q3) \<Longrightarrow>
         Vertex_Next (vertices g3 ! v) = Inr x \<Longrightarrow>
         Q (upd_vertex g3 v (\<lambda>_. x)) v t3 q3) \<Longrightarrow> Q g v t q"
  shows "P g v t q" and "Q g v t q"
proof (induct g v t q and g v t q rule: dfs_topol_traverse_dfs_neighbors.induct)
  case (1 g v t q)
  show ?case
  proof (rule T)
    fix x
    assume "v < length (vertices g)" "Vertex_HasNeighbors (vertices (enter g v (t + 1)) ! v)"
      "Vertex_Start (vertices (enter g v (t + 1)) ! v) = Inr x"
    then show "Q (upd_vertex (enter g v (t + 1)) v (\<lambda>_. x)) v (t + 1) q"
      using "1" [OF _ refl refl refl] by (simp add: enter_def)
  qed
next
  case (2 g v t q)
  show ?case
  proof (rule N)
    fix d w
    assume a: "v < length (vertices g)" "Vertex_End (vertices g ! v) = Inr False"
      "Vertex_GetNeighborIndex (vertices g ! v) = Inr d"
      "Graph_GetVertexByIndex g (index d) = Inr w" "color (vertices g ! w) = WHITE"
    have c: "Vertex_GetColor (vertices g ! w) = WHITE"
      using a(5) by (simp add: Vertex_GetColor_def)
    show "P (discover g v w) w t q"
      using "2"(1) [OF a(1) a(2) _ a(3) a(4) c refl refl] by (simp add: discover_def)
  next
    fix d w g3 t3 q3 x
    assume a: "v < length (vertices g)" "Vertex_End (vertices g ! v) = Inr False"
      "Vertex_GetNeighborIndex (vertices g ! v) = Inr d"
      "Graph_GetVertexByIndex g (index d) = Inr w"
      "dfs_visit_nbr g v w t q = Inr (g3, t3, q3)"
      "Vertex_Next (vertices g3 ! v) = Inr x"
    have raw: "(if Vertex_GetColor (vertices g ! w) = WHITE
                then let g1 = upd_vertex g w (\<lambda>x. Vertex_SetColor x GRAY);
                         g2 = upd_vertex g1 w
                                (\<lambda>x. Vertex_SetPredecessor x (Vertex_GetData (vertices g1 ! v)))
                     in dfs_topol_traverse g2 w t q
                else Inr (g, t, q)) = Inr (g3, t3, q3)"
      using a(5) unfolding dfs_visit_nbr_def discover_def Let_def .
    show "Q (upd_vertex g3 v (\<lambda>_. x)) v t3 q3"
      using "2"(2) [OF a(1) a(2) _ a(3) a(4) raw refl refl a(6)] by simp
  qed
qed

subsection \<open>Field writes\<close>

lemma upd_vertex_shape [simp]:
  "length (vertices (upd_vertex g i f)) = length (vertices g)"
  "len (upd_vertex g i f) = len g"
  "size' (upd_vertex g i f) = size' g"
  "type' (upd_vertex g i f) = type' g"
  by (simp_all add: upd_vertex_def)

lemma nth_upd_vertex:
  "vertices (upd_vertex g i f) ! u =
     (if u = i \<and> i < length (vertices g) then f (vertices g ! i) else vertices g ! u)"
  by (cases "i < length (vertices g)") (auto simp: upd_vertex_def list_update_beyond)

lemma enter_shape [simp]:
  "length (vertices (enter g v t)) = length (vertices g)"
  "len (enter g v t) = len g" "size' (enter g v t) = size' g" "type' (enter g v t) = type' g"
  by (simp_all add: enter_def)

lemma leave_shape [simp]:
  "length (vertices (leave g v t)) = length (vertices g)"
  "len (leave g v t) = len g" "size' (leave g v t) = size' g" "type' (leave g v t) = type' g"
  by (simp_all add: leave_def)

lemma discover_shape [simp]:
  "length (vertices (discover g v w)) = length (vertices g)"
  "len (discover g v w) = len g" "size' (discover g v w) = size' g"
  "type' (discover g v w) = type' g"
  by (simp_all add: discover_def)

lemma nth_enter:
  "vertices (enter g v t) ! u =
     (if u = v \<and> v < length (vertices g)
      then (vertices g ! v)\<lparr>color := GRAY, discovery_time := t\<rparr> else vertices g ! u)"
  by (simp add: enter_def nth_upd_vertex Vertex_SetColor_def Vertex_SetDiscovery_time_def)

lemma nth_leave:
  "vertices (leave g v t) ! u =
     (if u = v \<and> v < length (vertices g)
      then (vertices g ! v)\<lparr>color := BLACK, discovery_time := t\<rparr> else vertices g ! u)"
  by (simp add: leave_def nth_upd_vertex Vertex_SetColor_def Vertex_SetDiscovery_time_def)

lemma nth_discover:
  "vertices (discover g v w) ! u =
     (if u = w \<and> w < length (vertices g)
      then (vertices g ! w)\<lparr>predecessor := data (vertices g ! v), color := GRAY\<rparr>
      else vertices g ! u)"
  by (simp add: discover_def nth_upd_vertex Vertex_SetColor_def Vertex_SetPredecessor_def
      Vertex_GetData_def)

lemma Vertex_Start_Inr:
  "Vertex_Start x = Inr y \<longleftrightarrow>
     (\<exists>l. neighbors x = Some l \<and>
          y = x\<lparr>neighbors := Some (l\<lparr>cursor := (if entries l = [] then None else Some 0)\<rparr>)\<rparr>)"
  by (auto simp: Vertex_Start_def List_Cursor_front_def split: option.splits)

lemma Vertex_Next_Inr:
  "Vertex_Next x = Inr y \<longleftrightarrow>
     (\<exists>l i. neighbors x = Some l \<and> cursor l = Some i \<and>
          y = x\<lparr>neighbors :=
                 Some (l\<lparr>cursor := (if Suc i < length (entries l) then Some (Suc i) else None)\<rparr>)\<rparr>)"
  by (auto simp: Vertex_Next_def List_Cursor_next_def split: option.splits)

lemma Vertex_End_Inr:
  "Vertex_End x = Inr b \<longleftrightarrow> (\<exists>l. neighbors x = Some l \<and> b = (cursor l = None))"
  by (auto simp: Vertex_End_def List_Cursor_end_def split: option.splits)

lemma Vertex_GetNeighborIndex_Inr:
  "Vertex_GetNeighborIndex x = Inr d \<longleftrightarrow>
     (\<exists>l i. neighbors x = Some l \<and> cursor l = Some i \<and> i < length (entries l) \<and> d = entries l ! i)"
  by (auto simp: Vertex_GetNeighborIndex_def List_Cursor_get_def split: option.splits)

lemma only_cursor_refl [simp]: "only_cursor x x"
  by (simp add: only_cursor_def)

lemma only_cursor_trans: "only_cursor x y \<Longrightarrow> only_cursor y z \<Longrightarrow> only_cursor x z"
  by (simp add: only_cursor_def)

lemma only_cursor_skel: "only_cursor x y \<Longrightarrow> skel y = skel x"
  by (simp add: only_cursor_def skel_def)

lemma Vertex_Start_only_cursor: "Vertex_Start x = Inr y \<Longrightarrow> only_cursor x y"
  by (auto simp: Vertex_Start_Inr only_cursor_def)

lemma Vertex_Next_only_cursor: "Vertex_Next x = Inr y \<Longrightarrow> only_cursor x y"
  by (auto simp: Vertex_Next_Inr only_cursor_def)

subsection \<open>What a visit leaves alone\<close>

lemma same_shape_refl [simp]: "same_shape g g"
  by (simp add: same_shape_def)

lemma same_shape_trans: "same_shape g g1 \<Longrightarrow> same_shape g1 g2 \<Longrightarrow> same_shape g g2"
  by (simp add: same_shape_def)

lemma same_shape_upd: "skel (f (vertices g ! i)) = skel (vertices g ! i) \<Longrightarrow> same_shape g (upd_vertex g i f)"
  by (cases "i < length (vertices g)")
     (simp_all add: same_shape_def upd_vertex_def map_update list_update_beyond list_update_same_conv)

lemma same_shape_enter [simp]: "same_shape g (enter g v t)"
  unfolding enter_def
  by (intro same_shape_trans [OF same_shape_upd same_shape_upd])
     (simp_all add: skel_def Vertex_SetColor_def Vertex_SetDiscovery_time_def)

lemma same_shape_leave [simp]: "same_shape g (leave g v t)"
  unfolding leave_def
  by (intro same_shape_trans [OF same_shape_upd same_shape_upd])
     (simp_all add: skel_def Vertex_SetColor_def Vertex_SetDiscovery_time_def)

lemma same_shape_discover [simp]: "same_shape g (discover g v w)"
  unfolding discover_def
  by (intro same_shape_trans [OF same_shape_upd same_shape_upd])
     (simp_all add: skel_def Vertex_SetColor_def Vertex_SetPredecessor_def)

lemma same_shape_length: "same_shape g g' \<Longrightarrow> length (vertices g') = length (vertices g)"
  by (simp add: same_shape_def)

lemma same_shape_skel:
  "same_shape g g' \<Longrightarrow> u < length (vertices g) \<Longrightarrow> skel (vertices g' ! u) = skel (vertices g ! u)"
  unfolding same_shape_def by (metis length_map nth_map)

lemma chg_refl [simp]: "chg lo hi g g u"
  by (simp add: chg_def)

lemma chg_trans:
  "chg lo mid g g1 u \<Longrightarrow> chg mid hi g1 g2 u \<Longrightarrow> lo \<le> mid \<Longrightarrow> mid \<le> hi \<Longrightarrow> chg lo hi g g2 u"
  by (auto simp: chg_def)

lemma chg_mono: "chg lo hi g g' u \<Longrightarrow> lo' \<le> lo \<Longrightarrow> hi \<le> hi' \<Longrightarrow> chg lo' hi' g g' u"
  by (auto simp: chg_def)

lemma chg_eq: "vertices g1 ! u = vertices g ! u \<Longrightarrow> chg lo hi g1 g' u \<Longrightarrow> chg lo hi g g' u"
  by (auto simp: chg_def)

lemma chg_eq2: "vertices g' ! u = vertices g1 ! u \<Longrightarrow> chg lo hi g g1 u \<Longrightarrow> chg lo hi g g' u"
  by (auto simp: chg_def)

lemma chg_nonwhite: "chg lo hi g g' u \<Longrightarrow> color (vertices g ! u) \<noteq> WHITE \<Longrightarrow> vertices g' ! u = vertices g ! u"
  by (auto simp: chg_def)

lemma loop_rel_refl [simp]: "loop_rel g v t g t"
  by (simp add: loop_rel_def)

lemma visit_rel_leaf:
  "v < length (vertices g) \<Longrightarrow> visit_rel g v t (leave (enter g v (t + 1)) v (t + 2)) (t + 2)"
  unfolding visit_rel_def
  by (auto simp: nth_leave nth_enter chg_def
      intro: same_shape_trans [OF same_shape_enter same_shape_leave])

lemma visit_rel_inner:
  assumes v: "v < length (vertices g)"
    and x: "Vertex_Start (vertices (enter g v (t + 1)) ! v) = Inr x"
    and l: "loop_rel (upd_vertex (enter g v (t + 1)) v (\<lambda>_. x)) v (t + 1) g3 t3"
  shows "visit_rel g v t (leave g3 v (t3 + 1)) (t3 + 1)"
proof -
  let ?g2 = "upd_vertex (enter g v (t + 1)) v (\<lambda>_. x)"
  from l have sh: "same_shape ?g2 g3" and tt: "t + 1 \<le> t3"
    and lv: "only_cursor (vertices ?g2 ! v) (vertices g3 ! v)"
    and ch: "\<And>u. u < length (vertices g) \<Longrightarrow> u \<noteq> v \<Longrightarrow> chg (t + 1) t3 ?g2 g3 u"
    by (simp_all add: loop_rel_def)
  have len3: "length (vertices g3) = length (vertices g)"
    using same_shape_length [OF sh] by simp
  have "same_shape (enter g v (t + 1)) ?g2"
    using Vertex_Start_only_cursor [OF x] by (intro same_shape_upd) (simp add: only_cursor_skel)
  then have "same_shape g ?g2"
    by (rule same_shape_trans [OF same_shape_enter])
  then have "same_shape g g3"
    using sh by (rule same_shape_trans)
  then have s1: "same_shape g (leave g3 v (t3 + 1))"
    using same_shape_leave by (rule same_shape_trans)
  have "predecessor x = predecessor (vertices (enter g v (t + 1)) ! v)"
    using x by (auto simp: Vertex_Start_Inr)
  then have "predecessor (vertices ?g2 ! v) = predecessor (vertices g ! v)"
    using v by (simp add: nth_upd_vertex nth_enter)
  then have p: "predecessor (vertices g3 ! v) = predecessor (vertices g ! v)"
    using lv by (simp add: only_cursor_def)
  have c: "chg (t + 1) (t3 + 1 - 1) g (leave g3 v (t3 + 1)) u" if "u < length (vertices g)" "u \<noteq> v" for u
    using ch [OF that] that by (auto simp: chg_def nth_leave nth_upd_vertex nth_enter len3)
  show ?thesis
    unfolding visit_rel_def using v tt s1 p c by (simp add: nth_leave len3)
qed

lemma loop_rel_trans:
  assumes a: "loop_rel g v t g1 t1" and b: "loop_rel g1 v t1 g2 t2"
  shows "loop_rel g v t g2 t2"
proof -
  from a have len1: "length (vertices g1) = length (vertices g)"
    by (simp add: loop_rel_def same_shape_def)
  have "same_shape g g1" "same_shape g1 g2"
    using a b by (simp_all add: loop_rel_def)
  then have sh: "same_shape g g2"
    by (rule same_shape_trans)
  have tt: "t \<le> t1" "t1 \<le> t2"
    using a b by (simp_all add: loop_rel_def)
  have "only_cursor (vertices g ! v) (vertices g1 ! v)"
    "only_cursor (vertices g1 ! v) (vertices g2 ! v)"
    using a b by (simp_all add: loop_rel_def)
  then have vv: "only_cursor (vertices g ! v) (vertices g2 ! v)"
    by (rule only_cursor_trans)
  have "chg t t2 g g2 u" if "u < length (vertices g)" "u \<noteq> v" for u
  proof -
    have "chg t t1 g g1 u" "chg t1 t2 g1 g2 u"
      using a b that len1 by (simp_all add: loop_rel_def)
    then show ?thesis using tt by (rule chg_trans)
  qed
  with sh tt vv show ?thesis by (simp add: loop_rel_def)
qed

lemma loop_rel_cursor:
  assumes "Vertex_Next (vertices g ! v) = Inr x"
  shows "loop_rel g v t (upd_vertex g v (\<lambda>_. x)) t"
proof -
  from Vertex_Next_only_cursor [OF assms] have x: "only_cursor (vertices g ! v) x" .
  have "same_shape g (upd_vertex g v (\<lambda>_. x))"
    using x by (intro same_shape_upd) (simp add: only_cursor_skel)
  moreover have "only_cursor (vertices g ! v) (vertices (upd_vertex g v (\<lambda>_. x)) ! v)"
    using x by (simp add: nth_upd_vertex)
  ultimately show ?thesis
    by (simp add: loop_rel_def nth_upd_vertex chg_def)
qed

lemma loop_rel_white:
  assumes w: "w < length (vertices g)" and cw: "color (vertices g ! w) = WHITE"
    and cv: "color (vertices g ! v) \<noteq> WHITE"
    and r: "visit_rel (discover g v w) w t g3 t3"
    and vl: "v < length (vertices g)"
  shows "loop_rel g v t g3 t3"
proof -
  from cw cv have vw: "v \<noteq> w" by auto
  from r have sh: "same_shape (discover g v w) g3" and tt: "t + 2 \<le> t3"
    and bl: "color (vertices g3 ! w) = BLACK" and dt: "discovery_time (vertices g3 ! w) = t3"
    and ch: "\<And>u. u < length (vertices g) \<Longrightarrow> u \<noteq> w \<Longrightarrow> chg (t + 1) (t3 - 1) (discover g v w) g3 u"
    by (simp_all add: visit_rel_def)
  have s: "same_shape g g3"
    using same_shape_discover sh by (rule same_shape_trans)
  have v: "vertices g3 ! v = vertices g ! v"
  proof -
    from ch [OF vl vw] have "vertices g3 ! v = vertices (discover g v w) ! v"
      using cv vw by (elim chg_nonwhite) (simp add: nth_discover)
    then show ?thesis using vw by (simp add: nth_discover)
  qed
  have "chg t t3 g g3 u" if u: "u < length (vertices g)" "u \<noteq> v" for u
  proof (cases "u = w")
    case True
    with cw bl dt tt show ?thesis by (simp add: chg_def)
  next
    case False
    from ch [OF u(1) False] have "chg (t + 1) (t3 - 1) g g3 u"
      using False by (elim chg_eq [rotated]) (simp add: nth_discover)
    then show ?thesis by (rule chg_mono) simp_all
  qed
  with s tt v show ?thesis by (simp add: loop_rel_def)
qed

lemma dfs_rel:
  "dfs_topol_traverse g v t q = Inr (g', t', q') \<Longrightarrow> visit_rel g v t g' t'"
  "dfs_neighbors g v t q = Inr (g', t', q') \<Longrightarrow> color (vertices g ! v) \<noteq> WHITE \<Longrightarrow>
     loop_rel g v t g' t'"
proof (induct g v t q and g v t q arbitrary: g' t' q' and g' t' q' rule: dfs_induct)
  case (traverse g v t q)
  from traverse.prems obtain g3 t3 q3 where v: "v < length (vertices g)"
    and b: "dfs_body g v t q = Inr (g3, t3, q3)" and g': "g' = leave g3 v (t3 + 1)" "t' = t3 + 1"
    by (rule traverse_InrE)
  from b show ?case
  proof (cases rule: body_InrE)
    case leaf
    with v g' visit_rel_leaf [of v g t] show ?thesis by (simp add: add.commute)
  next
    case (inner x)
    have "color (vertices (upd_vertex (enter g v (t + 1)) v (\<lambda>_. x)) ! v) \<noteq> WHITE"
      using v Vertex_Start_color [OF inner(2)] by (simp add: nth_upd_vertex nth_enter)
    with traverse.hyps [OF v inner] have "loop_rel (upd_vertex (enter g v (t + 1)) v (\<lambda>_. x)) v (t + 1) g3 t3" .
    with v inner(2) show ?thesis unfolding g' by (rule visit_rel_inner)
  qed
next
  case (neighbors g v t q)
  note cv = neighbors.prems(2)
  from neighbors.prems(1) show ?case
  proof (cases rule: neighbors_InrE)
    case at_end
    then show ?thesis by simp
  next
    case (step d w g3 t3 q3 x)
    from step(4) have w: "w < length (vertices g)"
      by (simp add: GetVertexByIndex_Inr)
    have a: "loop_rel g v t g3 t3"
      using step(5)
    proof (cases rule: visit_nbr_InrE)
      case white
      from neighbors.hyps(1) [OF step(1-4) white]
      have "visit_rel (discover g v w) w t g3 t3" .
      with w white(1) cv show ?thesis using step(1) by (rule loop_rel_white)
    next
      case seen
      then show ?thesis by simp
    qed
    have b: "loop_rel g3 v t3 (upd_vertex g3 v (\<lambda>_. x)) t3"
      using step(6) by (rule loop_rel_cursor)
    have len3: "length (vertices g3) = length (vertices g)"
      using a by (simp add: loop_rel_def same_shape_def)
    from a have "color (vertices g3 ! v) \<noteq> WHITE"
      using cv by (simp add: loop_rel_def only_cursor_def)
    then have "color (vertices (upd_vertex g3 v (\<lambda>_. x)) ! v) \<noteq> WHITE"
      using Vertex_Next_color [OF step(6)] by (simp add: nth_upd_vertex)
    with neighbors.hyps(2) [OF step(1-7)]
    have c: "loop_rel (upd_vertex g3 v (\<lambda>_. x)) v t3 g' t'" .
    from a b have "loop_rel g v t (upd_vertex g3 v (\<lambda>_. x)) t3"
      by (rule loop_rel_trans)
    then show ?thesis using c by (rule loop_rel_trans)
  qed
qed

lemma loop_rel_color:
  assumes "loop_rel g v t g' t'" "u < length (vertices g)" "color (vertices g ! u) \<noteq> WHITE"
  shows "color (vertices g' ! u) = color (vertices g ! u)"
proof (cases "u = v")
  case True
  with assms(1) show ?thesis by (simp add: loop_rel_def only_cursor_def)
next
  case False
  with assms(1,2) have "chg t t' g g' u" by (simp add: loop_rel_def)
  with assms(3) show ?thesis by (auto simp: chg_def)
qed

lemma loop_rel_length: "loop_rel g v t g' t' \<Longrightarrow> length (vertices g') = length (vertices g)"
  by (simp add: loop_rel_def same_shape_def)

lemma loop_rel_len: "loop_rel g v t g' t' \<Longrightarrow> len g' = len g"
  by (simp add: loop_rel_def same_shape_def)

lemma visit_rel_length: "visit_rel g v t g' t' \<Longrightarrow> length (vertices g') = length (vertices g)"
  by (simp add: visit_rel_def same_shape_def)

lemma visit_rel_unchanged:
  assumes "visit_rel g v t g' t'" "u < length (vertices g)" "u \<noteq> v"
    "color (vertices g ! u) \<noteq> WHITE"
  shows "vertices g' ! u = vertices g ! u"
proof -
  from assms(1-3) have "chg (t + 1) (t' - 1) g g' u" by (simp add: visit_rel_def)
  then show ?thesis using assms(4) by (rule chg_nonwhite)
qed

lemma leave_data: "data (vertices (leave g v t) ! u) = data (vertices g ! u)"
  by (simp add: nth_leave)

lemma enter_data: "data (vertices (enter g v t) ! u) = data (vertices g ! u)"
  by (simp add: nth_enter)

lemma loop_rel_data:
  "loop_rel g v t g' t' \<Longrightarrow> u < length (vertices g) \<Longrightarrow> data (vertices g' ! u) = data (vertices g ! u)"
  using same_shape_skel [of g g' u] by (simp add: loop_rel_def skel_def)

lemma dfs_post:
  fixes PV PL :: "Graph \<Rightarrow> nat \<Rightarrow> int \<Rightarrow> Queue \<Rightarrow> Graph \<Rightarrow> int \<Rightarrow> Queue \<Rightarrow> bool"
  assumes Leaf: "\<And>g v t q q'.
      \<lbrakk>v < length (vertices g); v < len g; color (vertices g ! v) = GRAY;
       neighbors (vertices g ! v) = None; Queue_Enqueue q (data (vertices g ! v)) = Inr q'\<rbrakk>
      \<Longrightarrow> PV g v t q (leave (enter g v (t + 1)) v (t + 2)) (t + 2) q'"
    and Inner: "\<And>g v t q x g3 t3 q3 q'.
      \<lbrakk>v < length (vertices g); v < len g; color (vertices g ! v) = GRAY;
       Vertex_Start (vertices (enter g v (t + 1)) ! v) = Inr x;
       loop_rel (upd_vertex (enter g v (t + 1)) v (\<lambda>_. x)) v (t + 1) g3 t3;
       PL (upd_vertex (enter g v (t + 1)) v (\<lambda>_. x)) v (t + 1) q g3 t3 q3;
       Queue_Enqueue q3 (data (vertices g ! v)) = Inr q'\<rbrakk>
      \<Longrightarrow> PV g v t q (leave g3 v (t3 + 1)) (t3 + 1) q'"
    and At_end: "\<And>g v t q.
      \<lbrakk>v < length (vertices g); v < len g; color (vertices g ! v) = GRAY;
       Vertex_End (vertices g ! v) = Inr True\<rbrakk> \<Longrightarrow> PL g v t q g t q"
    and Seen: "\<And>g v t q d w x g' t' q'.
      \<lbrakk>v < length (vertices g); v < len g; color (vertices g ! v) = GRAY;
       Vertex_End (vertices g ! v) = Inr False; Vertex_GetNeighborIndex (vertices g ! v) = Inr d;
       Graph_GetVertexByIndex g (index d) = Inr w; color (vertices g ! w) \<noteq> WHITE;
       Vertex_Next (vertices g ! v) = Inr x;
       loop_rel (upd_vertex g v (\<lambda>_. x)) v t g' t';
       PL (upd_vertex g v (\<lambda>_. x)) v t q g' t' q'\<rbrakk>
      \<Longrightarrow> PL g v t q g' t' q'"
    and White: "\<And>g v t q d w x g3 t3 q3 g' t' q'.
      \<lbrakk>v < length (vertices g); v < len g; color (vertices g ! v) = GRAY;
       Vertex_End (vertices g ! v) = Inr False; Vertex_GetNeighborIndex (vertices g ! v) = Inr d;
       Graph_GetVertexByIndex g (index d) = Inr w; color (vertices g ! w) = WHITE;
       visit_rel (discover g v w) w t g3 t3; PV (discover g v w) w t q g3 t3 q3;
       vertices g3 ! v = vertices g ! v; Vertex_Next (vertices g ! v) = Inr x;
       loop_rel (upd_vertex g3 v (\<lambda>_. x)) v t3 g' t';
       PL (upd_vertex g3 v (\<lambda>_. x)) v t3 q3 g' t' q'\<rbrakk>
      \<Longrightarrow> PL g v t q g' t' q'"
  shows "dfs_topol_traverse g v t q = Inr (g', t', q') \<Longrightarrow> v < len g \<Longrightarrow>
           color (vertices g ! v) = GRAY \<Longrightarrow> PV g v t q g' t' q'"
    and "dfs_neighbors g v t q = Inr (g', t', q') \<Longrightarrow> v < len g \<Longrightarrow>
           color (vertices g ! v) = GRAY \<Longrightarrow> PL g v t q g' t' q'"
proof (induct g v t q and g v t q arbitrary: g' t' q' and g' t' q' rule: dfs_induct)
  case (traverse g v t q)
  note vlen = traverse.prems(2) and gray = traverse.prems(3)
  from traverse.prems(1) obtain g3 t3 q3 where v: "v < length (vertices g)"
    and b: "dfs_body g v t q = Inr (g3, t3, q3)" and g': "g' = leave g3 v (t3 + 1)" "t' = t3 + 1"
    and e: "Queue_Enqueue q3 (data (vertices (leave g3 v (t3 + 1)) ! v)) = Inr q'"
    by (rule traverse_InrE)
  from b show ?case
  proof (cases rule: body_InrE)
    case leaf
    from leaf(1) v have n: "neighbors (vertices g ! v) = None"
      by (simp add: Vertex_HasNeighbors_def nth_enter)
    from e leaf have "Queue_Enqueue q (data (vertices g ! v)) = Inr q'"
      by (simp add: leave_data enter_data)
    then have "PV g v t q (leave (enter g v (t + 1)) v (t + 2)) (t + 2) q'"
      by (rule Leaf [OF v vlen gray n])
    moreover have "t3 + 1 = t + 2" "g3 = enter g v (t + 1)"
      using leaf by simp_all
    ultimately show ?thesis unfolding g' by (simp only:)
  next
    case (inner x)
    let ?g2 = "upd_vertex (enter g v (t + 1)) v (\<lambda>_. x)"
    have c2: "color (vertices ?g2 ! v) = GRAY"
      using v Vertex_Start_color [OF inner(2)] by (simp add: nth_upd_vertex nth_enter)
    then have r: "loop_rel ?g2 v (t + 1) g3 t3"
      using dfs_rel(2) [OF inner(3)] by simp
    have l2: "v < len ?g2" using vlen by simp
    have p: "PL ?g2 v (t + 1) q g3 t3 q3"
      using traverse.hyps [OF v inner l2 c2] .
    have "data (vertices g3 ! v) = data (vertices ?g2 ! v)"
      using r v by (intro loop_rel_data) simp_all
    also have "\<dots> = data (vertices g ! v)"
      using v Vertex_Start_only_cursor [OF inner(2)]
      by (simp add: nth_upd_vertex only_cursor_def enter_data)
    finally have "Queue_Enqueue q3 (data (vertices g ! v)) = Inr q'"
      using e by (simp add: leave_data)
    from Inner [OF v vlen gray inner(2) r p this] show ?thesis
      unfolding g' .
  qed
next
  case (neighbors g v t q)
  note vlen = neighbors.prems(2) and gray = neighbors.prems(3)
  from neighbors.prems(1) show ?case
  proof (cases rule: neighbors_InrE)
    case at_end
    from At_end [OF at_end(1) vlen gray at_end(2)] at_end show ?thesis by simp
  next
    case (step d w g3 t3 q3 x)
    from step(4) have w: "w < length (vertices g)"
      by (simp add: GetVertexByIndex_Inr)
    from step(5) show ?thesis
    proof (cases rule: visit_nbr_InrE)
      case white
      have vw: "v \<noteq> w" using gray white(1) by auto
      have wl: "w < len (discover g v w)"
        using step(4) by (auto simp: GetVertexByIndex_Inr)
      have wg: "color (vertices (discover g v w) ! w) = GRAY"
        using w by (simp add: nth_discover)
      have vr: "visit_rel (discover g v w) w t g3 t3"
        using white(2) by (rule dfs_rel(1))
      have pv: "PV (discover g v w) w t q g3 t3 q3"
        using neighbors.hyps(1) [OF step(1-4) white wl wg] .
      have "vertices g3 ! v = vertices (discover g v w) ! v"
        using vr step(1) vw gray by (intro visit_rel_unchanged) (simp_all add: nth_discover)
      then have same: "vertices g3 ! v = vertices g ! v"
        using vw by (simp add: nth_discover)
      have len3: "length (vertices g3) = length (vertices g)" "len g3 = len g"
        using vr by (simp_all add: visit_rel_def same_shape_def)
      have nx: "Vertex_Next (vertices g ! v) = Inr x"
        using step(6) same by simp
      have c3: "color (vertices (upd_vertex g3 v (\<lambda>_. x)) ! v) = GRAY"
        using Vertex_Next_color [OF nx] gray step(1) len3 by (simp add: nth_upd_vertex)
      have l3: "v < len (upd_vertex g3 v (\<lambda>_. x))"
        using vlen len3 by simp
      have lr: "loop_rel (upd_vertex g3 v (\<lambda>_. x)) v t3 g' t'"
        using dfs_rel(2) [OF step(7)] c3 by simp
      have pl: "PL (upd_vertex g3 v (\<lambda>_. x)) v t3 q3 g' t' q'"
        using neighbors.hyps(2) [OF step(1-7) l3 c3] .
      from White [OF step(1) vlen gray step(2-4) white(1) vr pv same nx lr pl]
      show ?thesis .
    next
      case seen
      have nx: "Vertex_Next (vertices g ! v) = Inr x"
        using step(6) seen by simp
      have c3: "color (vertices (upd_vertex g v (\<lambda>_. x)) ! v) = GRAY"
        using Vertex_Next_color [OF nx] gray step(1) by (simp add: nth_upd_vertex)
      have l3: "v < len (upd_vertex g v (\<lambda>_. x))"
        using vlen by simp
      have st: "dfs_neighbors (upd_vertex g v (\<lambda>_. x)) v t q = Inr (g', t', q')"
        using step(7) seen by simp
      have lr: "loop_rel (upd_vertex g v (\<lambda>_. x)) v t g' t'"
        using dfs_rel(2) [OF st] c3 by simp
      have pl: "PL (upd_vertex g v (\<lambda>_. x)) v t q g' t' q'"
        using neighbors.hyps(2) [OF step(1-6)] step(7) l3 c3 seen by simp
      from Seen [OF step(1) vlen gray step(2-4) seen(1) nx lr pl]
      show ?thesis .
    qed
  qed
qed

section \<open>Closure, reachability, finishing order and completion of a visit\<close>

lemma skel_succs: "skel x = skel y \<Longrightarrow> succs x = succs y"
  by (cases "neighbors x"; cases "neighbors y") (auto simp: skel_def succs_def nbr_entries_def)

lemma same_shape_succs:
  "same_shape g g' \<Longrightarrow> u < length (vertices g) \<Longrightarrow> succs (vertices g' ! u) = succs (vertices g ! u)"
  by (rule skel_succs) (rule same_shape_skel)

lemma cursor_start:
  "Vertex_Start y = Inr x \<Longrightarrow> passed x = 0 \<and> succs x = succs y"
  by (auto simp: Vertex_Start_Inr passed_def succs_def nbr_entries_def)

lemma cursor_end: "Vertex_End y = Inr True \<Longrightarrow> drop (passed y) (succs y) = []"
  by (auto simp: Vertex_End_Inr passed_def succs_def nbr_entries_def)

lemma cursor_step:
  assumes "Vertex_GetNeighborIndex y = Inr d" "Vertex_Next y = Inr x"
  shows "drop (passed y) (succs y) = nat (index d) # drop (passed x) (succs x)"
    and "succs x = succs y" and "nat (index d) \<in> set (succs y)"
proof -
  from assms(1) obtain l i where l: "neighbors y = Some l" "cursor l = Some i"
    "i < length (entries l)" "d = entries l ! i"
    by (auto simp: Vertex_GetNeighborIndex_Inr)
  with assms(2) have x: "neighbors x = Some (l\<lparr>cursor := (if Suc i < length (entries l) then Some (Suc i) else None)\<rparr>)"
    by (auto simp: Vertex_Next_Inr)
  have p: "passed y = i" "passed x = Suc i"
    using l x by (auto simp: passed_def)
  show s: "succs x = succs y"
    using l x by (simp add: succs_def nbr_entries_def)
  have "drop i (succs y) = succs y ! i # drop (Suc i) (succs y)"
    using l by (intro Cons_nth_drop_Suc [symmetric]) (simp add: succs_def nbr_entries_def)
  moreover have "succs y ! i = nat (index d)"
    using l by (simp add: succs_def nbr_entries_def)
  ultimately show "drop (passed y) (succs y) = nat (index d) # drop (passed x) (succs x)"
    by (simp add: p s)
  show "nat (index d) \<in> set (succs y)"
    using l by (auto simp: succs_def nbr_entries_def)
qed

lemma black_closedI:
  assumes "length (vertices g') = length (vertices g)"
    and "len g' = len g"
    and "\<And>u. u < length (vertices g) \<Longrightarrow> succs (vertices g' ! u) = succs (vertices g ! u)"
    and "\<And>u. u < length (vertices g) \<Longrightarrow> color (vertices g ! u) \<noteq> WHITE \<Longrightarrow>
           color (vertices g' ! u) \<noteq> WHITE"
    and "\<And>u w. u < length (vertices g) \<Longrightarrow> color (vertices g' ! u) = BLACK \<Longrightarrow>
           color (vertices g ! u) \<noteq> BLACK \<Longrightarrow> w \<in> set (succs (vertices g ! u)) \<Longrightarrow>
           w < length (vertices g) \<Longrightarrow> color (vertices g' ! w) \<noteq> WHITE"
    and "black_closed g"
  shows "black_closed g'"
  unfolding black_closed_def
proof (intro allI impI ballI)
  fix u w
  assume u: "u < length (vertices g')" "color (vertices g' ! u) = BLACK"
    and un: "u < len g'"
    and w: "w \<in> set (succs (vertices g' ! u))" "w < length (vertices g')"
  from u assms(1) have ul: "u < length (vertices g)" by simp
  from un assms(2) have unl: "u < len g" by simp
  from w assms(1,3) ul have w': "w \<in> set (succs (vertices g ! u))" "w < length (vertices g)"
    by simp_all
  show "color (vertices g' ! w) \<noteq> WHITE"
  proof (cases "color (vertices g ! u) = BLACK")
    case True
    with assms(6) ul unl w' have "color (vertices g ! w) \<noteq> WHITE"
      by (auto simp: black_closed_def)
    with w' show ?thesis by (intro assms(4))
  next
    case False
    with ul u w' show ?thesis by (intro assms(5))
  qed
qed

lemma black_closed_enter:
  assumes "black_closed g" "v < length (vertices g)" "color (vertices g ! v) = GRAY"
  shows "black_closed (enter g v t)"
  using _ _ _ _ _ assms(1)
proof (rule black_closedI)
  fix u assume "u < length (vertices g)"
  then show "succs (vertices (enter g v t) ! u) = succs (vertices g ! u)"
    by (intro same_shape_succs) simp_all
qed (use assms in \<open>auto simp: nth_enter split: if_splits\<close>)

lemma black_closed_discover:
  assumes "black_closed g" "color (vertices g ! w) = WHITE"
  shows "black_closed (discover g v w)"
  using _ _ _ _ _ assms(1)
proof (rule black_closedI)
  fix u assume "u < length (vertices g)"
  then show "succs (vertices (discover g v w) ! u) = succs (vertices g ! u)"
    by (intro same_shape_succs) simp_all
qed (use assms in \<open>auto simp: nth_discover split: if_splits\<close>)

lemma black_closed_cursor:
  assumes "black_closed g" "only_cursor (vertices g ! v) x"
  shows "black_closed (upd_vertex g v (\<lambda>_. x))"
  using _ _ _ _ _ assms(1)
proof (rule black_closedI)
  fix u assume "u < length (vertices g)"
  then show "succs (vertices (upd_vertex g v (\<lambda>_. x)) ! u) = succs (vertices g ! u)"
    using assms(2) by (auto simp: nth_upd_vertex intro: skel_succs only_cursor_skel)
qed (use assms in \<open>auto simp: nth_upd_vertex only_cursor_def split: if_splits\<close>)

lemma black_closed_leave:
  assumes "black_closed g" "v < length (vertices g)"
    and "\<And>w. w \<in> set (succs (vertices g ! v)) \<Longrightarrow> w < length (vertices g) \<Longrightarrow>
           color (vertices g ! w) \<noteq> WHITE"
  shows "black_closed (leave g v t)"
  using _ _ _ _ _ assms(1)
proof (rule black_closedI)
  fix u assume "u < length (vertices g)"
  then show "succs (vertices (leave g v t) ! u) = succs (vertices g ! u)"
    by (intro same_shape_succs) simp_all
next
  fix u w
  assume "u < length (vertices g)" "color (vertices (leave g v t) ! u) = BLACK"
    "color (vertices g ! u) \<noteq> BLACK" "w \<in> set (succs (vertices g ! u))" "w < length (vertices g)"
  then show "color (vertices (leave g v t) ! w) \<noteq> WHITE"
    using assms(2,3) by (auto simp: nth_leave split: if_splits)
qed (use assms in \<open>auto simp: nth_leave split: if_splits\<close>)

lemma dfs_closed:
  "dfs_topol_traverse g v t q = Inr (g', t', q') \<Longrightarrow> v < len g \<Longrightarrow>
     color (vertices g ! v) = GRAY \<Longrightarrow> black_closed g \<longrightarrow> black_closed g'"
  "dfs_neighbors g v t q = Inr (g', t', q') \<Longrightarrow> v < len g \<Longrightarrow>
     color (vertices g ! v) = GRAY \<Longrightarrow> black_closed g \<longrightarrow> black_closed g' \<and> closes g v g'"
proof -
  let ?PV = "\<lambda>g v (t::int) (q::Queue) g' (t'::int) (q'::Queue). black_closed g \<longrightarrow> black_closed g'"
  let ?PL = "\<lambda>g v (t::int) (q::Queue) g' (t'::int) (q'::Queue).
               black_closed g \<longrightarrow> black_closed g' \<and> closes g v g'"
  have Leaf: "?PV g v t q (leave (enter g v (t + 1)) v (t + 2)) (t + 2) q'"
    if 1: "v < length (vertices g)" "v < len g" "color (vertices g ! v) = GRAY"
       "neighbors (vertices g ! v) = None" "Queue_Enqueue q (data (vertices g ! v)) = Inr q'"
    for g v t q q'
  proof
    assume "black_closed g"
    then have "black_closed (enter g v (t + 1))"
      using 1 by (intro black_closed_enter)
    moreover have "succs (vertices (enter g v (t + 1)) ! v) = []"
      using 1 by (simp add: nth_enter succs_def nbr_entries_def)
    ultimately show "black_closed (leave (enter g v (t + 1)) v (t + 2))"
      using 1 by (intro black_closed_leave) simp_all
  qed
  have Inner: "?PV g v t q (leave g3 v (t3 + 1)) (t3 + 1) q'"
    if 2: "v < length (vertices g)" "v < len g" "color (vertices g ! v) = GRAY"
       "Vertex_Start (vertices (enter g v (t + 1)) ! v) = Inr x"
       "loop_rel (upd_vertex (enter g v (t + 1)) v (\<lambda>_. x)) v (t + 1) g3 t3"
       "?PL (upd_vertex (enter g v (t + 1)) v (\<lambda>_. x)) v (t + 1) q g3 t3 q3"
       "Queue_Enqueue q3 (data (vertices g ! v)) = Inr q'"
    for g v t q x g3 t3 q3 q'
  proof
    let ?g2 = "upd_vertex (enter g v (t + 1)) v (\<lambda>_. x)"
    assume "black_closed g"
    then have "black_closed (enter g v (t + 1))"
      using 2 by (intro black_closed_enter)
    then have "black_closed ?g2"
      using Vertex_Start_only_cursor [OF 2(4)] by (rule black_closed_cursor)
    with 2(6) have b3: "black_closed g3" and c: "closes ?g2 v g3"
      by simp_all
    have len3: "length (vertices g3) = length (vertices g)"
      using loop_rel_length [OF 2(5)] by simp
    have "succs (vertices g3 ! v) = succs (vertices ?g2 ! v)"
      using 2(5) 2(1) by (intro same_shape_succs) (simp_all add: loop_rel_def)
    moreover have "passed (vertices ?g2 ! v) = 0"
      using cursor_start [OF 2(4)] 2(1) by (simp add: nth_upd_vertex)
    ultimately have "\<And>w. w \<in> set (succs (vertices g3 ! v)) \<Longrightarrow> w < length (vertices g3) \<Longrightarrow>
        color (vertices g3 ! w) \<noteq> WHITE"
      using c len3 by (simp add: closes_def)
    with b3 show "black_closed (leave g3 v (t3 + 1))"
      using 2(1) len3 by (intro black_closed_leave) simp_all
  qed
  have At_end: "?PL g v t q g t q"
    if "v < length (vertices g)" "v < len g" "color (vertices g ! v) = GRAY"
       "Vertex_End (vertices g ! v) = Inr True"
    for g v t q
    using that by (simp add: closes_def cursor_end)
  have Seen: "?PL g v t q g' t' q'"
    if 4: "v < length (vertices g)" "v < len g" "color (vertices g ! v) = GRAY"
       "Vertex_End (vertices g ! v) = Inr False" "Vertex_GetNeighborIndex (vertices g ! v) = Inr d"
       "Graph_GetVertexByIndex g (index d) = Inr w" "color (vertices g ! w) \<noteq> WHITE"
       "Vertex_Next (vertices g ! v) = Inr x"
       "loop_rel (upd_vertex g v (\<lambda>_. x)) v t g' t'"
       "?PL (upd_vertex g v (\<lambda>_. x)) v t q g' t' q'"
    for g v t q d w x g' t' q'
  proof
    let ?g1 = "upd_vertex g v (\<lambda>_. x)"
    assume "black_closed g"
    then have "black_closed ?g1"
      using Vertex_Next_only_cursor [OF 4(8)] by (rule black_closed_cursor)
    with 4(10) have b: "black_closed g'" and c: "closes ?g1 v g'"
      by simp_all
    from 4(6) have w: "w = nat (index d)" "w < length (vertices g)"
      by (simp_all add: GetVertexByIndex_Inr)
    have "color (vertices ?g1 ! w) \<noteq> WHITE"
      using 4(7) 4(3) Vertex_Next_color [OF 4(8)] by (auto simp: nth_upd_vertex)
    then have "color (vertices g' ! w) \<noteq> WHITE"
      using loop_rel_color [OF 4(9), of w] w by simp
    then have "closes g v g'"
      using c cursor_step [OF 4(5) 4(8)] 4(1) w by (simp add: closes_def nth_upd_vertex)
    with b show "black_closed g' \<and> closes g v g'" ..
  qed
  have White: "?PL g v t q g' t' q'"
    if 5: "v < length (vertices g)" "v < len g" "color (vertices g ! v) = GRAY"
       "Vertex_End (vertices g ! v) = Inr False" "Vertex_GetNeighborIndex (vertices g ! v) = Inr d"
       "Graph_GetVertexByIndex g (index d) = Inr w" "color (vertices g ! w) = WHITE"
       "visit_rel (discover g v w) w t g3 t3" "?PV (discover g v w) w t q g3 t3 q3"
       "vertices g3 ! v = vertices g ! v" "Vertex_Next (vertices g ! v) = Inr x"
       "loop_rel (upd_vertex g3 v (\<lambda>_. x)) v t3 g' t'"
       "?PL (upd_vertex g3 v (\<lambda>_. x)) v t3 q3 g' t' q'"
    for g v t q d w x g3 t3 q3 g' t' q'
  proof -
  from 5(8) have len3: "length (vertices g3) = length (vertices g)"
    by (simp add: visit_rel_def same_shape_def)
  from 5(6) have w: "w = nat (index d)" "w < length (vertices g)"
    by (simp_all add: GetVertexByIndex_Inr)
  have vw: "v \<noteq> w" using 5(3,7) by auto
  show ?thesis
  proof
    let ?g1 = "upd_vertex g3 v (\<lambda>_. x)"
    assume "black_closed g"
    then have "black_closed (discover g v w)"
      using 5(7) by (rule black_closed_discover)
    with 5(9) have "black_closed g3" by simp
    moreover have "only_cursor (vertices g3 ! v) x"
      using Vertex_Next_only_cursor [OF 5(11)] by (simp only: 5(10))
    ultimately have "black_closed ?g1"
      by (rule black_closed_cursor)
    with 5(13) have b: "black_closed g'" and c: "closes ?g1 v g'"
      by simp_all
    have "color (vertices g3 ! w) = BLACK"
      using 5(8) by (simp add: visit_rel_def)
    then have "color (vertices ?g1 ! w) \<noteq> WHITE"
      using vw by (simp add: nth_upd_vertex)
    then have "color (vertices g' ! w) \<noteq> WHITE"
      using loop_rel_color [OF 5(12), of w] w len3 by simp
    then have "closes g v g'"
      using c cursor_step [OF 5(5) 5(11)] 5(1) w len3 by (simp add: closes_def nth_upd_vertex)
    with b show "black_closed g' \<and> closes g v g'" ..
  qed
  qed
  note R = dfs_post [where PV = ?PV and PL = ?PL, OF Leaf Inner At_end Seen White]
  show "dfs_topol_traverse g v t q = Inr (g', t', q') \<Longrightarrow> v < len g \<Longrightarrow>
     color (vertices g ! v) = GRAY \<Longrightarrow> black_closed g \<longrightarrow> black_closed g'"
    by (rule R(1))
  show "dfs_neighbors g v t q = Inr (g', t', q') \<Longrightarrow> v < len g \<Longrightarrow>
     color (vertices g ! v) = GRAY \<Longrightarrow> black_closed g \<longrightarrow> black_closed g' \<and> closes g v g'"
    by (rule R(2))
qed

lemma edges_same_shape:
  assumes "same_shape g g'"
  shows "edges g' = edges g"
proof -
  have "len g' = len g" "length (vertices g') = length (vertices g)"
    using assms by (simp_all add: same_shape_def)
  moreover have "succs (vertices g' ! a) = succs (vertices g ! a)" if "a < length (vertices g)" for a
    using assms that by (rule same_shape_succs)
  ultimately show ?thesis
    unfolding edges_def by auto
qed

lemma reachable_same_shape: "same_shape g g' \<Longrightarrow> reachable g' = reachable g"
  by (simp add: reachable_def edges_same_shape fun_eq_iff)

lemma reachable_self [simp]: "v \<in> reachable g v"
  by (simp add: reachable_def)

lemma reachable_step:
  "(v, w) \<in> edges g \<Longrightarrow> u \<in> reachable g w \<Longrightarrow> u \<in> reachable g v"
  by (auto simp: reachable_def intro: converse_rtrancl_into_rtrancl)

lemma same_shape_cursor: "only_cursor (vertices g ! v) x \<Longrightarrow> same_shape g (upd_vertex g v (\<lambda>_. x))"
  by (rule same_shape_upd) (simp add: only_cursor_skel)

lemma dfs_touched:
  "dfs_topol_traverse g v t q = Inr (g', t', q') \<Longrightarrow> v < len g \<Longrightarrow>
     color (vertices g ! v) = GRAY \<Longrightarrow> touched_within g v g'"
  "dfs_neighbors g v t q = Inr (g', t', q') \<Longrightarrow> v < len g \<Longrightarrow>
     color (vertices g ! v) = GRAY \<Longrightarrow> touched_within g v g'"
proof -
  let ?P = "\<lambda>g v (t::int) (q::Queue) g' (t'::int) (q'::Queue). touched_within g v g'"
  have Leaf: "?P g v t q (leave (enter g v (t + 1)) v (t + 2)) (t + 2) q'"
    if "v < length (vertices g)" for g v t q q'
    by (simp add: touched_within_def nth_leave nth_enter)
  have Inner: "?P g v t q (leave g3 v (t3 + 1)) (t3 + 1) q'"
    if 2: "v < length (vertices g)" "v < len g" "color (vertices g ! v) = GRAY"
       "Vertex_Start (vertices (enter g v (t + 1)) ! v) = Inr x"
       "loop_rel (upd_vertex (enter g v (t + 1)) v (\<lambda>_. x)) v (t + 1) g3 t3"
       "?P (upd_vertex (enter g v (t + 1)) v (\<lambda>_. x)) v (t + 1) q g3 t3 q3"
    for g v t q x g3 t3 q3 q'
  proof -
    let ?g2 = "upd_vertex (enter g v (t + 1)) v (\<lambda>_. x)"
    have "same_shape (enter g v (t + 1)) ?g2"
      using Vertex_Start_only_cursor [OF 2(4)] by (rule same_shape_cursor)
    with same_shape_enter have "same_shape g ?g2" by (rule same_shape_trans)
    then have r: "reachable ?g2 = reachable g" by (rule reachable_same_shape)
    show ?thesis
      unfolding touched_within_def
    proof (intro allI impI)
      fix u assume u: "u < length (vertices g)"
        "vertices (leave g3 v (t3 + 1)) ! u \<noteq> vertices g ! u"
      show "u \<in> reachable g v"
      proof (cases "u = v")
        case True then show ?thesis by simp
      next
        case False
        with u have "vertices g3 ! u \<noteq> vertices ?g2 ! u"
          by (simp add: nth_leave nth_upd_vertex nth_enter)
        with 2(6) u(1) show ?thesis by (simp add: touched_within_def r)
      qed
    qed
  qed
  have At_end: "?P g v t q g t q" for g v t q
    by (simp add: touched_within_def)
  have Seen: "?P g v t q g' t' q'"
    if 4: "v < length (vertices g)" "Vertex_Next (vertices g ! v) = Inr x"
       "?P (upd_vertex g v (\<lambda>_. x)) v t q g' t' q'"
    for g v t q x g' t' q'
  proof -
    let ?g1 = "upd_vertex g v (\<lambda>_. x)"
    have "same_shape g ?g1"
      using Vertex_Next_only_cursor [OF 4(2)] by (rule same_shape_cursor)
    then have r: "reachable ?g1 = reachable g" by (rule reachable_same_shape)
    show ?thesis
      unfolding touched_within_def
    proof (intro allI impI)
      fix u assume u: "u < length (vertices g)" "vertices g' ! u \<noteq> vertices g ! u"
      show "u \<in> reachable g v"
      proof (cases "u = v")
        case True then show ?thesis by simp
      next
        case False
        with u have "vertices g' ! u \<noteq> vertices ?g1 ! u"
          by (simp add: nth_upd_vertex)
        with 4(3) u(1) show ?thesis by (simp add: touched_within_def r)
      qed
    qed
  qed
  have White: "?P g v t q g' t' q'"
    if 5: "v < length (vertices g)" "v < len g"
       "Vertex_GetNeighborIndex (vertices g ! v) = Inr d"
       "Graph_GetVertexByIndex g (index d) = Inr w"
       "visit_rel (discover g v w) w t g3 t3" "?P (discover g v w) w t q g3 t3 q3"
       "vertices g3 ! v = vertices g ! v" "Vertex_Next (vertices g ! v) = Inr x"
       "?P (upd_vertex g3 v (\<lambda>_. x)) v t3 q3 g' t' q'"
    for g v t q d w x g3 t3 q3 g' t' q'
  proof -
    let ?g1 = "upd_vertex g3 v (\<lambda>_. x)"
    from 5(5) have sh3: "same_shape (discover g v w) g3"
      and len3: "length (vertices g3) = length (vertices g)"
      by (simp_all add: visit_rel_def same_shape_def)
    have s03: "same_shape g g3"
      using same_shape_discover sh3 by (rule same_shape_trans)
    have "only_cursor (vertices g3 ! v) x"
      using Vertex_Next_only_cursor [OF 5(8)] by (simp only: 5(7))
    then have "same_shape g3 ?g1" by (rule same_shape_cursor)
    with s03 have "same_shape g ?g1" by (rule same_shape_trans)
    then have r1: "reachable ?g1 = reachable g" by (rule reachable_same_shape)
    have rd: "reachable (discover g v w) = reachable g"
      by (rule reachable_same_shape) simp
    from 5(4) have w: "w = nat (index d)" by (simp add: GetVertexByIndex_Inr)
    have e: "(v, w) \<in> edges g"
      using cursor_step(3) [OF 5(3) 5(8)] 5(1,2) w by (simp add: edges_def)
    show ?thesis
      unfolding touched_within_def
    proof (intro allI impI)
      fix u assume u: "u < length (vertices g)" "vertices g' ! u \<noteq> vertices g ! u"
      show "u \<in> reachable g v"
      proof (cases "u = v \<or> vertices g' ! u \<noteq> vertices ?g1 ! u")
        case True
        then show ?thesis
        proof
          assume "u = v" then show ?thesis by simp
        next
          assume "vertices g' ! u \<noteq> vertices ?g1 ! u"
          with 5(9) u(1) len3 show ?thesis by (simp add: touched_within_def r1)
        qed
      next
        case False
        with u have c: "vertices g3 ! u \<noteq> vertices g ! u" "u \<noteq> v"
          by (auto simp: nth_upd_vertex)
        have "u \<in> reachable g w"
        proof (cases "u = w")
          case True then show ?thesis by simp
        next
          case False
          with c have "vertices g3 ! u \<noteq> vertices (discover g v w) ! u"
            by (simp add: nth_discover)
          with 5(6) u(1) show ?thesis by (simp add: touched_within_def rd)
        qed
        with e show ?thesis by (rule reachable_step)
      qed
    qed
  qed
  note R = dfs_post [where PV = ?P and PL = ?P, OF Leaf Inner At_end Seen White]
  show "dfs_topol_traverse g v t q = Inr (g', t', q') \<Longrightarrow> v < len g \<Longrightarrow>
     color (vertices g ! v) = GRAY \<Longrightarrow> touched_within g v g'"
    by (rule R(1))
  show "dfs_neighbors g v t q = Inr (g', t', q') \<Longrightarrow> v < len g \<Longrightarrow>
     color (vertices g ! v) = GRAY \<Longrightarrow> touched_within g v g'"
    by (rule R(2))
qed

lemma blk_enter: "color (vertices g ! v) = GRAY \<Longrightarrow> blk (enter g v t) = blk g"
  by (auto simp: blk_def nth_enter split: if_splits)

lemma blk_discover: "color (vertices g ! w) = WHITE \<Longrightarrow> blk (discover g v w) = blk g"
  by (auto simp: blk_def nth_discover split: if_splits)

lemma blk_cursor: "only_cursor (vertices g ! v) x \<Longrightarrow> blk (upd_vertex g v (\<lambda>_. x)) = blk g"
  by (auto simp: blk_def nth_upd_vertex only_cursor_def split: if_splits)

lemma blk_leave: "v < length (vertices g) \<Longrightarrow> blk (leave g v t) = insert v (blk g)"
  by (auto simp: blk_def nth_leave split: if_splits)

lemma visit_rel_blk:
  assumes "visit_rel g v t g' t'" "color (vertices g ! v) = GRAY" "u \<in> blk g"
  shows "vertices g' ! u = vertices g ! u" and "u \<in> blk g'"
proof -
  from assms(2,3) have u: "u < length (vertices g)" "u \<noteq> v" "color (vertices g ! u) \<noteq> WHITE"
    by (auto simp: blk_def)
  with assms(1) show e: "vertices g' ! u = vertices g ! u"
    by (intro visit_rel_unchanged)
  with assms(3) visit_rel_length [OF assms(1)] show "u \<in> blk g'"
    by (simp add: blk_def)
qed

lemma loop_rel_blk:
  assumes "loop_rel g v t g' t'" "color (vertices g ! v) = GRAY" "u \<in> blk g"
  shows "vertices g' ! u = vertices g ! u" and "u \<in> blk g'"
proof -
  from assms(2,3) have u: "u < length (vertices g)" "u \<noteq> v" "color (vertices g ! u) \<noteq> WHITE"
    by (auto simp: blk_def)
  with assms(1) have "chg t t' g g' u" by (simp add: loop_rel_def)
  then show e: "vertices g' ! u = vertices g ! u"
    using u(3) by (rule chg_nonwhite)
  with assms(3) loop_rel_length [OF assms(1)] show "u \<in> blk g'"
    by (simp add: blk_def)
qed

lemma fin_seq_nil: "blk g' = blk g \<Longrightarrow> fin_seq g g' t t []"
  by (simp add: fin_seq_def)

lemma fin_seq_pre: "fin_seq g1 g' t t' fs \<Longrightarrow> blk g1 = blk g \<Longrightarrow> len g1 = len g \<Longrightarrow> fin_seq g g' t t' fs"
  unfolding fin_seq_def by (elim conjE, intro conjI) (simp_all only:)

lemma fin_seq_append:
  assumes a: "fin_seq g g1 t t1 fs1" and b: "fin_seq g1 g2 t1 t2 fs2"
    and l: "len g1 = len g" and m: "blk g \<subseteq> blk g1"
    and s: "\<And>u. u \<in> blk g1 \<Longrightarrow> vertices g2 ! u = vertices g1 ! u \<and> u \<in> blk g2"
  shows "fin_seq g g2 t t2 (fs1 @ fs2)"
proof -
  from a [unfolded fin_seq_def] have a': "distinct fs1" "set fs1 = blk g1 - blk g" "\<forall>u\<in>set fs1. u < len g"
    "t1 = t + 2 * int (length fs1)"
    "sorted_wrt (<) (map (\<lambda>u. discovery_time (vertices g1 ! u)) fs1)"
    "\<forall>u\<in>set fs1. t < discovery_time (vertices g1 ! u) \<and> discovery_time (vertices g1 ! u) \<le> t1"
    by blast+
  from b [unfolded fin_seq_def] have b': "distinct fs2" "set fs2 = blk g2 - blk g1" "\<forall>u\<in>set fs2. u < len g1"
    "t2 = t1 + 2 * int (length fs2)"
    "sorted_wrt (<) (map (\<lambda>u. discovery_time (vertices g2 ! u)) fs2)"
    "\<forall>u\<in>set fs2. t1 < discovery_time (vertices g2 ! u) \<and> discovery_time (vertices g2 ! u) \<le> t2"
    by blast+
  have same1: "vertices g2 ! u = vertices g1 ! u" if "u \<in> set fs1" for u
    using s [of u] that a'(2) by simp
  have sub: "blk g1 \<subseteq> blk g2" using s by auto
  have d: "distinct (fs1 @ fs2)"
    using a'(1,2) b'(1,2) by auto
  have st: "set (fs1 @ fs2) = blk g2 - blk g"
    using a'(2) b'(2) m sub by auto
  have ln: "\<forall>u\<in>set (fs1 @ fs2). u < len g"
    using a'(3) b'(3) l by auto
  have tm: "t2 = t + 2 * int (length (fs1 @ fs2))"
    using a'(4) b'(4) by simp
  have m1: "map (\<lambda>u. discovery_time (vertices g2 ! u)) fs1 =
            map (\<lambda>u. discovery_time (vertices g1 ! u)) fs1"
    by (rule map_cong) (simp_all add: same1)
  have so: "sorted_wrt (<) (map (\<lambda>u. discovery_time (vertices g2 ! u)) (fs1 @ fs2))"
    unfolding map_append sorted_wrt_append m1
  proof (intro conjI ballI)
    fix x y
    assume "x \<in> set (map (\<lambda>u. discovery_time (vertices g1 ! u)) fs1)"
      "y \<in> set (map (\<lambda>u. discovery_time (vertices g2 ! u)) fs2)"
    then have "x \<le> t1" "t1 < y" using a'(6) b'(6) by auto
    then show "x < y" by simp
  qed (use a'(5) b'(5) in simp_all)
  have t12: "t \<le> t1" "t1 \<le> t2" using a'(4) b'(4) by simp_all
  have bd: "\<forall>u\<in>set (fs1 @ fs2). t < discovery_time (vertices g2 ! u) \<and>
              discovery_time (vertices g2 ! u) \<le> t2"
  proof
    fix u assume "u \<in> set (fs1 @ fs2)"
    then consider "u \<in> set fs1" | "u \<in> set fs2" by auto
    then show "t < discovery_time (vertices g2 ! u) \<and> discovery_time (vertices g2 ! u) \<le> t2"
    proof cases
      case 1
      with a'(6) same1 t12 show ?thesis by fastforce
    next
      case 2
      with b'(6) t12 show ?thesis by fastforce
    qed
  qed
  from d st ln tm so bd show ?thesis
    unfolding fin_seq_def by blast
qed

lemma fin_seq_leave:
  assumes a: "fin_seq g g3 (t + 1) t3 fs" and v: "v < length (vertices g3)" "v < len g"
    and n: "v \<notin> blk g3" "v \<notin> blk g"
  shows "fin_seq g (leave g3 v (t3 + 1)) t (t3 + 1) (fs @ [v])"
proof -
  from a [unfolded fin_seq_def] have a': "distinct fs" "set fs = blk g3 - blk g" "\<forall>u\<in>set fs. u < len g"
    "t3 = t + 1 + 2 * int (length fs)"
    "sorted_wrt (<) (map (\<lambda>u. discovery_time (vertices g3 ! u)) fs)"
    "\<forall>u\<in>set fs. t + 1 < discovery_time (vertices g3 ! u) \<and> discovery_time (vertices g3 ! u) \<le> t3"
    by blast+
  have vf: "v \<notin> set fs" using a'(2) n by simp
  have same: "vertices (leave g3 v (t3 + 1)) ! u = vertices g3 ! u" if "u \<in> set fs" for u
    using that vf by (auto simp: nth_leave)
  have m1: "map (\<lambda>u. discovery_time (vertices (leave g3 v (t3 + 1)) ! u)) fs =
            map (\<lambda>u. discovery_time (vertices g3 ! u)) fs"
    by (rule map_cong) (simp_all add: same)
  have dv: "discovery_time (vertices (leave g3 v (t3 + 1)) ! v) = t3 + 1"
    using v by (simp add: nth_leave)
  have c5: "sorted_wrt (<) (map (\<lambda>u. discovery_time (vertices (leave g3 v (t3 + 1)) ! u)) (fs @ [v]))"
    unfolding map_append sorted_wrt_append m1 using a'(5,6) dv by fastforce
  have c2: "set (fs @ [v]) = blk (leave g3 v (t3 + 1)) - blk g"
    using a'(2) n v by (auto simp: blk_leave)
  have c1: "distinct (fs @ [v])" using a'(1) vf by simp
  have c3: "\<forall>u\<in>set (fs @ [v]). u < len g" using a'(3) v(2) by simp
  have c4: "t3 + 1 = t + 2 * int (length (fs @ [v]))" using a'(4) by simp
  have c6: "\<forall>u\<in>set (fs @ [v]). t < discovery_time (vertices (leave g3 v (t3 + 1)) ! u) \<and>
       discovery_time (vertices (leave g3 v (t3 + 1)) ! u) \<le> t3 + 1"
  proof
    fix u assume "u \<in> set (fs @ [v])"
    then consider "u \<in> set fs" | "u = v" by auto
    then show "t < discovery_time (vertices (leave g3 v (t3 + 1)) ! u) \<and>
       discovery_time (vertices (leave g3 v (t3 + 1)) ! u) \<le> t3 + 1"
    proof cases
      case 1
      with a'(6) same show ?thesis by fastforce
    next
      case 2
      with dv a'(4) show ?thesis by simp
    qed
  qed
  from c1 c2 c3 c4 c5 c6 show ?thesis
    unfolding fin_seq_def by blast
qed

lemma recorded_nil [simp]: "recorded g q q []"
  by (simp add: recorded_def)

lemma recorded_pre:
  "recorded g1 q q' fs \<Longrightarrow> (\<And>u. u \<in> set fs \<Longrightarrow> data (vertices g1 ! u) = data (vertices g ! u)) \<Longrightarrow>
   recorded g q q' fs"
  by (simp add: recorded_def cong: map_cong)

lemma recorded_append:
  "recorded g q q1 fs1 \<Longrightarrow> recorded g q1 q2 fs2 \<Longrightarrow> recorded g q q2 (fs1 @ fs2)"
  by (simp add: recorded_def)

lemma recorded_enqueue:
  "Queue_Enqueue q (data (vertices g ! v)) = Inr q' \<Longrightarrow> recorded g q q' [v]"
  by (auto simp: recorded_def Queue_Enqueue_def split: if_splits)

lemma same_shape_data:
  "same_shape g g' \<Longrightarrow> u < length (vertices g) \<Longrightarrow> data (vertices g' ! u) = data (vertices g ! u)"
  using same_shape_skel [of g g' u] by (simp add: skel_def)

lemma fin_seq_bound: "fin_seq g g' t t' fs \<Longrightarrow> u \<in> set fs \<Longrightarrow> u < length (vertices g')"
  unfolding fin_seq_def blk_def by blast

lemma dfs_finished:
  "dfs_topol_traverse g v t q = Inr (g', t', q') \<Longrightarrow> v < len g \<Longrightarrow>
     color (vertices g ! v) = GRAY \<Longrightarrow>
     \<exists>fs. fin_seq g g' t t' (fs @ [v]) \<and> recorded g q q' (fs @ [v])"
  "dfs_neighbors g v t q = Inr (g', t', q') \<Longrightarrow> v < len g \<Longrightarrow>
     color (vertices g ! v) = GRAY \<Longrightarrow>
     \<exists>fs. fin_seq g g' t t' fs \<and> recorded g q q' fs"
proof -
  let ?PV = "\<lambda>g v t q g' t' q'. \<exists>fs. fin_seq g g' t t' (fs @ [v]) \<and> recorded g q q' (fs @ [v])"
  let ?PL = "\<lambda>g (v::nat) t q g' t' q'. \<exists>fs. fin_seq g g' t t' fs \<and> recorded g q q' fs"
  have Leaf: "?PV g v t q (leave (enter g v (t + 1)) v (t + 2)) (t + 2) q'"
    if 1: "v < length (vertices g)" "v < len g" "color (vertices g ! v) = GRAY"
       "neighbors (vertices g ! v) = None" "Queue_Enqueue q (data (vertices g ! v)) = Inr q'"
    for g v t q q'
  proof -
    have nb: "v \<notin> blk g" using 1(3) by (simp add: blk_def)
    have "fin_seq g (enter g v (t + 1)) (t + 1) (t + 1) []"
      using 1(3) by (intro fin_seq_nil blk_enter)
    then have "fin_seq g (leave (enter g v (t + 1)) v (t + 1 + 1)) t (t + 1 + 1) ([] @ [v])"
      using 1(1,2) nb by (intro fin_seq_leave) (simp_all add: blk_enter 1(3))
    moreover have "t + 1 + 1 = t + 2" by simp
    ultimately have "fin_seq g (leave (enter g v (t + 1)) v (t + 2)) t (t + 2) ([] @ [v])"
      by (simp only:)
    moreover have "recorded g q q' ([] @ [v])"
      using recorded_enqueue [OF 1(5)] by simp
    ultimately show ?thesis by blast
  qed
  have Inner: "?PV g v t q (leave g3 v (t3 + 1)) (t3 + 1) q'"
    if 2: "v < length (vertices g)" "v < len g" "color (vertices g ! v) = GRAY"
       "Vertex_Start (vertices (enter g v (t + 1)) ! v) = Inr x"
       "loop_rel (upd_vertex (enter g v (t + 1)) v (\<lambda>_. x)) v (t + 1) g3 t3"
       "?PL (upd_vertex (enter g v (t + 1)) v (\<lambda>_. x)) v (t + 1) q g3 t3 q3"
       "Queue_Enqueue q3 (data (vertices g ! v)) = Inr q'"
    for g v t q x g3 t3 q3 q'
  proof -
    let ?g2 = "upd_vertex (enter g v (t + 1)) v (\<lambda>_. x)"
    from 2(6) obtain fs where fs: "fin_seq ?g2 g3 (t + 1) t3 fs" "recorded ?g2 q q3 fs"
      by blast
    have oc: "only_cursor (vertices (enter g v (t + 1)) ! v) x"
      using 2(4) by (rule Vertex_Start_only_cursor)
    have b2: "blk ?g2 = blk g"
      using blk_cursor [OF oc] blk_enter [OF 2(3)] by simp
    have len3: "length (vertices g3) = length (vertices g)"
      using loop_rel_length [OF 2(5)] by simp
    have nb: "v \<notin> blk g" using 2(3) by (simp add: blk_def)
    have "color (vertices ?g2 ! v) = GRAY"
      using oc 2(1) by (simp add: nth_upd_vertex only_cursor_def nth_enter)
    then have "color (vertices g3 ! v) = GRAY"
      using 2(5) by (simp add: loop_rel_def only_cursor_def)
    then have nb3: "v \<notin> blk g3" by (simp add: blk_def)
    have "fin_seq g g3 (t + 1) t3 fs"
      using fs(1) b2 by (rule fin_seq_pre) simp
    then have f: "fin_seq g (leave g3 v (t3 + 1)) t (t3 + 1) (fs @ [v])"
      using 2(1,2) nb3 nb len3 by (intro fin_seq_leave) simp_all
    have "data (vertices ?g2 ! u) = data (vertices g ! u)" for u
      using oc by (simp add: nth_upd_vertex nth_enter only_cursor_def)
    with fs(2) have "recorded g q q3 fs"
      by (rule recorded_pre)
    then have "recorded g q q' (fs @ [v])"
      using recorded_enqueue [OF 2(7)] by (rule recorded_append)
    with f show ?thesis by blast
  qed
  have At_end: "?PL g v t q g t q" for g v t q
    using fin_seq_nil [of g g t] recorded_nil by blast
  have Seen: "?PL g v t q g' t' q'"
    if 4: "Vertex_Next (vertices g ! v) = Inr x"
       "?PL (upd_vertex g v (\<lambda>_. x)) v t q g' t' q'"
    for g v t q x g' t' q'
  proof -
    let ?g1 = "upd_vertex g v (\<lambda>_. x)"
    from 4(2) obtain fs where fs: "fin_seq ?g1 g' t t' fs" "recorded ?g1 q q' fs"
      by blast
    have oc: "only_cursor (vertices g ! v) x"
      using 4(1) by (rule Vertex_Next_only_cursor)
    have "fin_seq g g' t t' fs"
      using fs(1) blk_cursor [OF oc] by (rule fin_seq_pre) simp
    moreover have "data (vertices ?g1 ! u) = data (vertices g ! u)" for u
      using oc by (simp add: nth_upd_vertex only_cursor_def)
    with fs(2) have "recorded g q q' fs"
      by (rule recorded_pre)
    ultimately show ?thesis by blast
  qed
  have White: "?PL g v t q g' t' q'"
    if 5: "v < length (vertices g)" "color (vertices g ! v) = GRAY"
       "Graph_GetVertexByIndex g (index d) = Inr w" "color (vertices g ! w) = WHITE"
       "visit_rel (discover g v w) w t g3 t3" "?PV (discover g v w) w t q g3 t3 q3"
       "vertices g3 ! v = vertices g ! v" "Vertex_Next (vertices g ! v) = Inr x"
       "loop_rel (upd_vertex g3 v (\<lambda>_. x)) v t3 g' t'"
       "?PL (upd_vertex g3 v (\<lambda>_. x)) v t3 q3 g' t' q'"
    for g v t q d w x g3 t3 q3 g' t' q'
  proof -
    let ?gd = "discover g v w" and ?g1 = "upd_vertex g3 v (\<lambda>_. x)"
    from 5(6) obtain fs1 where fs1: "fin_seq ?gd g3 t t3 (fs1 @ [w])" "recorded ?gd q q3 (fs1 @ [w])"
      by blast
    from 5(10) obtain fs2 where fs2: "fin_seq ?g1 g' t3 t' fs2" "recorded ?g1 q3 q' fs2"
      by blast
    from 5(3) have w: "w < length (vertices g)" by (simp add: GetVertexByIndex_Inr)
    from 5(5) have sh3: "same_shape ?gd g3" and len3: "length (vertices g3) = length (vertices g)"
      and ln3: "len g3 = len g"
      by (simp_all add: visit_rel_def same_shape_def)
    have s03: "same_shape g g3"
      using same_shape_discover sh3 by (rule same_shape_trans)
    have oc: "only_cursor (vertices g3 ! v) x"
      using Vertex_Next_only_cursor [OF 5(8)] by (simp only: 5(7))
    have bd: "blk ?gd = blk g" using 5(4) by (rule blk_discover)
    have b1: "blk ?g1 = blk g3" using oc by (rule blk_cursor)
    have gw: "color (vertices ?gd ! w) = GRAY" using w by (simp add: nth_discover)
    have c3: "color (vertices g3 ! v) = GRAY" using 5(2,7) by simp
    then have c1: "color (vertices ?g1 ! v) = GRAY"
      using oc 5(1) len3 by (simp add: nth_upd_vertex only_cursor_def)
    have A: "fin_seq g g3 t t3 (fs1 @ [w])"
      using fs1(1) bd by (rule fin_seq_pre) simp
    have B: "fin_seq g3 g' t3 t' fs2"
      using fs2(1) b1 by (rule fin_seq_pre) simp
    have m: "blk g \<subseteq> blk g3"
      using visit_rel_blk(2) [OF 5(5) gw] bd by auto
    have st: "vertices g' ! u = vertices g3 ! u \<and> u \<in> blk g'" if u: "u \<in> blk g3" for u
    proof -
      from u c3 have "u \<noteq> v" by (auto simp: blk_def)
      then have "vertices ?g1 ! u = vertices g3 ! u" by (simp add: nth_upd_vertex)
      moreover have "u \<in> blk ?g1" using u b1 by simp
      ultimately show ?thesis
        using loop_rel_blk [OF 5(9) c1, of u] by simp
    qed
    have F: "fin_seq g g' t t' ((fs1 @ [w]) @ fs2)"
      using A B ln3 m st by (rule fin_seq_append)
    have "data (vertices ?gd ! u) = data (vertices g ! u)" for u
      by (simp add: nth_discover)
    with fs1(2) have R1: "recorded g q q3 (fs1 @ [w])"
      by (rule recorded_pre)
    have "data (vertices ?g1 ! u) = data (vertices g ! u)" if "u \<in> set fs2" for u
    proof -
      have "u < length (vertices g')" using fs2(1) that by (rule fin_seq_bound)
      then have ul: "u < length (vertices g)"
        using loop_rel_length [OF 5(9)] len3 by simp
      have "data (vertices ?g1 ! u) = data (vertices g3 ! u)"
        using oc by (simp add: nth_upd_vertex only_cursor_def)
      also have "\<dots> = data (vertices g ! u)"
        using s03 ul by (rule same_shape_data)
      finally show ?thesis .
    qed
    with fs2(2) have "recorded g q3 q' fs2"
      by (rule recorded_pre)
    with R1 have "recorded g q q' ((fs1 @ [w]) @ fs2)"
      by (rule recorded_append)
    with F show ?thesis by blast
  qed
  note R = dfs_post [where PV = ?PV and PL = ?PL, OF Leaf Inner At_end Seen White]
  show "dfs_topol_traverse g v t q = Inr (g', t', q') \<Longrightarrow> v < len g \<Longrightarrow>
     color (vertices g ! v) = GRAY \<Longrightarrow>
     \<exists>fs. fin_seq g g' t t' (fs @ [v]) \<and> recorded g q q' (fs @ [v])"
    by (rule R(1))
  show "dfs_neighbors g v t q = Inr (g', t', q') \<Longrightarrow> v < len g \<Longrightarrow>
     color (vertices g ! v) = GRAY \<Longrightarrow>
     \<exists>fs. fin_seq g g' t t' fs \<and> recorded g q q' fs"
    by (rule R(2))
qed

lemma Graph_inv_iff:
  "Graph_inv g \<longleftrightarrow>
     length (vertices g) = size' g \<and> len g \<le> size' g \<and>
     (\<forall>u<len g. \<forall>d\<in>set (nbr_entries (vertices g ! u)). 0 \<le> index d \<and> index d < int (len g))"
proof (cases "len g \<le> length (vertices g)")
  case True
  then have "list_all P (take (len g) (vertices g)) \<longleftrightarrow> (\<forall>u<len g. P (vertices g ! u))" for P
    by (simp add: list_all_length)
  then show ?thesis by (simp add: Graph_inv_def list_all_iff)
next
  case False
  then show ?thesis by (auto simp: Graph_inv_def)
qed

lemma Graph_inv_same_shape:
  assumes "Graph_inv g" "same_shape g g'"
  shows "Graph_inv g'"
proof -
  from assms(2) have s: "length (vertices g') = length (vertices g)" "len g' = len g" "size' g' = size' g"
    by (simp_all add: same_shape_def)
  have "nbr_entries (vertices g' ! u) = nbr_entries (vertices g ! u)" if "u < length (vertices g)" for u
    using same_shape_skel [OF assms(2) that]
    by (cases "neighbors (vertices g' ! u)"; cases "neighbors (vertices g ! u)")
       (auto simp: skel_def nbr_entries_def)
  with assms(1) s show ?thesis
    by (simp add: Graph_inv_iff)
qed

lemma finite_nonblack [simp]: "finite (nonblack g)"
  by (simp add: nonblack_def)

lemma nonblack_blk:
  "len g \<le> length (vertices g) \<Longrightarrow> nonblack g = {u. u < len g} - blk g"
  by (auto simp: nonblack_def blk_def)

lemma budget_pre:
  "budget g q \<Longrightarrow> blk g1 = blk g \<Longrightarrow> len g1 = len g \<Longrightarrow> length (vertices g1) = length (vertices g) \<Longrightarrow>
   len g \<le> length (vertices g) \<Longrightarrow> budget g1 q"
  by (simp add: budget_def nonblack_blk)

lemma budget_fin:
  assumes b: "budget g q" and f: "fin_seq g g' t t' fs" and r: "recorded g q q' fs"
    and l: "len g' = len g" "length (vertices g') = length (vertices g)" "len g \<le> length (vertices g)"
    and m: "blk g \<subseteq> blk g'"
  shows "budget g' q'"
proof -
  from f [unfolded fin_seq_def] have d: "distinct fs" and s: "set fs = blk g' - blk g"
    and n: "\<forall>u\<in>set fs. u < len g"
    by blast+
  have sub: "set fs \<subseteq> nonblack g"
    using s n l(3) by (auto simp: nonblack_blk)
  have "nonblack g' = nonblack g - set fs"
    using s m l by (auto simp: nonblack_blk)
  then have "card (nonblack g') = card (nonblack g) - card (set fs)"
    using sub by (simp add: card_Diff_subset)
  moreover have "card (set fs) \<le> card (nonblack g)"
    using sub by (intro card_mono) simp_all
  moreover have "card (set fs) = length fs"
    using d by (rule distinct_card)
  moreover have "length (items q') = length (items q) + length fs" "capacity q' = capacity q"
    using r by (simp_all add: recorded_def)
  ultimately show ?thesis
    using b by (simp add: budget_def)
qed

lemma budget_room:
  assumes "budget g q" "v < len g" "color (vertices g ! v) = GRAY"
  shows "length (items q) < capacity q"
proof -
  have "v \<in> nonblack g" using assms(2,3) by (simp add: nonblack_def)
  then have "0 < card (nonblack g)"
    using finite_nonblack card_gt_0_iff by blast
  with assms(1) show ?thesis by (simp add: budget_def)
qed

lemma Queue_Enqueue_room:
  "length (items q) < capacity q \<Longrightarrow> \<exists>q'. Queue_Enqueue q x = Inr q'"
  by (simp add: Queue_Enqueue_def)

lemma Graph_inv_len: "Graph_inv g \<Longrightarrow> len g \<le> length (vertices g)"
  by (simp add: Graph_inv_def)

lemma Graph_inv_entry:
  "Graph_inv g \<Longrightarrow> u < len g \<Longrightarrow> d \<in> set (nbr_entries (vertices g ! u)) \<Longrightarrow>
   Graph_GetVertexByIndex g (index d) = Inr (nat (index d)) \<and> nat (index d) < len g"
proof -
  assume a: "Graph_inv g" "u < len g" "d \<in> set (nbr_entries (vertices g ! u))"
  then have "0 \<le> index d \<and> index d < int (len g)"
    by (auto simp: Graph_inv_iff)
  moreover have "len g \<le> length (vertices g)"
    using a(1) by (simp add: Graph_inv_def)
  ultimately show ?thesis
    by (simp add: GetVertexByIndex_Inr) linarith
qed

lemma cursor_ok_Start: "Vertex_Start y = Inr x \<Longrightarrow> cursor_ok x"
  by (auto simp: Vertex_Start_Inr cursor_ok_def)

lemma cursor_ok_Next: "Vertex_Next y = Inr x \<Longrightarrow> cursor_ok x"
  by (auto simp: Vertex_Next_Inr cursor_ok_def)

lemma cursor_ok_cases:
  assumes "cursor_ok y"
  obtains (at_end) "Vertex_End y = Inr True"
  | (entry) d x where "Vertex_End y = Inr False" "Vertex_GetNeighborIndex y = Inr d"
      "d \<in> set (nbr_entries y)" "Vertex_Next y = Inr x"
proof -
  from assms obtain l where l: "neighbors y = Some l"
    by (auto simp: cursor_ok_def split: option.splits)
  show thesis
  proof (cases "cursor l")
    case None
    with l have "Vertex_End y = Inr True" by (simp add: Vertex_End_Inr)
    then show ?thesis by (rule at_end)
  next
    case (Some i)
    with assms l have i: "i < length (entries l)" by (simp add: cursor_ok_def)
    have "Vertex_End y = Inr False" using l Some by (simp add: Vertex_End_Inr)
    moreover have "Vertex_GetNeighborIndex y = Inr (entries l ! i)"
      using l Some i by (simp add: Vertex_GetNeighborIndex_Inr)
    moreover have "entries l ! i \<in> set (nbr_entries y)"
      using l i by (simp add: nbr_entries_def)
    moreover have "\<exists>x. Vertex_Next y = Inr x"
      using l Some by (simp add: Vertex_Next_Inr)
    ultimately show ?thesis using entry by blast
  qed
qed

lemma visit_nbr_facts:
  assumes n: "dfs_visit_nbr g v w t q = Inr (g3, t3, q3)"
    and i: "Graph_inv g" and v: "v < len g" "color (vertices g ! v) = GRAY"
    and w: "w < len g" and b: "budget g q"
  shows "same_shape g g3" and "vertices g3 ! v = vertices g ! v" and "budget g3 q3"
proof -
  note ll = Graph_inv_len [OF i]
  from v(1) w ll have vl: "v < length (vertices g)" and wl: "w < length (vertices g)" by simp_all
  from n have "same_shape g g3 \<and> vertices g3 ! v = vertices g ! v \<and> budget g3 q3"
  proof (cases rule: visit_nbr_InrE)
    case seen
    with b show ?thesis by simp
  next
    case white
    let ?gd = "discover g v w"
    have vw: "v \<noteq> w" using v(2) white(1) by auto
    have gw: "color (vertices ?gd ! w) = GRAY" using wl by (simp add: nth_discover)
    have wd: "w < len ?gd" using w by simp
    have vr: "visit_rel ?gd w t g3 t3" using white(2) by (rule dfs_rel(1))
    then have sh: "same_shape ?gd g3" by (simp add: visit_rel_def)
    have s: "same_shape g g3" using same_shape_discover sh by (rule same_shape_trans)
    have "vertices g3 ! v = vertices ?gd ! v"
      using vr vl vw v(2) by (intro visit_rel_unchanged) (simp_all add: nth_discover)
    then have e: "vertices g3 ! v = vertices g ! v" using vw by (simp add: nth_discover)
    from dfs_finished(1) [OF white(2) wd gw] obtain fs where
      fs: "fin_seq ?gd g3 t t3 (fs @ [w])" "recorded ?gd q q3 (fs @ [w])" by blast
    have bd: "budget ?gd q"
      using blk_discover [OF white(1)] ll by (intro budget_pre [OF b]) simp_all
    have "blk ?gd \<subseteq> blk g3"
      using visit_rel_blk(2) [OF vr gw] by auto
    then have "budget g3 q3"
      using sh ll by (intro budget_fin [OF bd fs]) (simp_all add: same_shape_def)
    with s e show ?thesis by simp
  qed
  then show "same_shape g g3" and "vertices g3 ! v = vertices g ! v" and "budget g3 q3"
    by simp_all
qed

lemma dfs_succeeds:
  "Graph_inv g \<Longrightarrow> v < len g \<Longrightarrow> color (vertices g ! v) = GRAY \<Longrightarrow> budget g q \<Longrightarrow>
     \<exists>r. dfs_topol_traverse g v t q = Inr r"
  "Graph_inv g \<Longrightarrow> v < len g \<Longrightarrow> color (vertices g ! v) = GRAY \<Longrightarrow> budget g q \<Longrightarrow>
     cursor_ok (vertices g ! v) \<Longrightarrow> \<exists>r. dfs_neighbors g v t q = Inr r"
proof (induct g v t q and g v t q rule: dfs_induct)
  case (traverse g v t q)
  note inv = traverse.prems(1) and vlen = traverse.prems(2) and gray = traverse.prems(3)
    and bud = traverse.prems(4)
  note ll = Graph_inv_len [OF inv]
  from vlen ll have vl: "v < length (vertices g)" by simp
  let ?g1 = "enter g v (t + 1)"
  have "\<exists>g3 t3 q3. dfs_body g v t q = Inr (g3, t3, q3) \<and> budget g3 q3 \<and> len g3 = len g \<and>
          color (vertices g3 ! v) = GRAY"
  proof (cases "neighbors (vertices g ! v)")
    case None
    then have "dfs_body g v t q = Inr (?g1, t + 1, q)"
      using vl by (simp add: dfs_body_def Vertex_HasNeighbors_def nth_enter)
    moreover have "budget ?g1 q"
      using blk_enter [OF gray] ll by (intro budget_pre [OF bud]) simp_all
    moreover have "color (vertices ?g1 ! v) = GRAY"
      using vl by (simp add: nth_enter)
    ultimately show ?thesis by simp
  next
    case (Some l)
    then have hn: "Vertex_HasNeighbors (vertices ?g1 ! v)"
      using vl by (simp add: Vertex_HasNeighbors_def nth_enter)
    from Some obtain x where x: "Vertex_Start (vertices ?g1 ! v) = Inr x"
      using vl by (simp add: Vertex_Start_Inr nth_enter)
    let ?g2 = "upd_vertex ?g1 v (\<lambda>_. x)"
    have oc: "only_cursor (vertices ?g1 ! v) x" using x by (rule Vertex_Start_only_cursor)
    have sh: "same_shape g ?g2"
      using same_shape_enter same_shape_cursor [OF oc] by (rule same_shape_trans)
    have i2: "Graph_inv ?g2" using inv sh by (rule Graph_inv_same_shape)
    have c2: "color (vertices ?g2 ! v) = GRAY"
      using oc vl by (simp add: nth_upd_vertex nth_enter only_cursor_def)
    have b2: "budget ?g2 q"
      using blk_cursor [OF oc] blk_enter [OF gray] ll by (intro budget_pre [OF bud]) simp_all
    have k2: "cursor_ok (vertices ?g2 ! v)"
      using cursor_ok_Start [OF x] vl by (simp add: nth_upd_vertex)
    have l2: "v < len ?g2" using vlen by simp
    from traverse.hyps [OF vl hn x i2 l2 c2 b2 k2] obtain g3 t3 q3 where
      r: "dfs_neighbors ?g2 v (t + 1) q = Inr (g3, t3, q3)" by (auto simp: split_paired_Ex)
    have body: "dfs_body g v t q = Inr (g3, t3, q3)"
      using hn x r by (simp add: dfs_body_def)
    have lr: "loop_rel ?g2 v (t + 1) g3 t3"
      using dfs_rel(2) [OF r] c2 by simp
    from dfs_finished(2) [OF r l2 c2] obtain fs where
      fs: "fin_seq ?g2 g3 (t + 1) t3 fs" "recorded ?g2 q q3 fs" by blast
    have "blk ?g2 \<subseteq> blk g3"
      using loop_rel_blk(2) [OF lr c2] by auto
    then have "budget g3 q3"
      using lr ll by (intro budget_fin [OF b2 fs])
        (simp_all add: loop_rel_def same_shape_def)
    moreover have "color (vertices g3 ! v) = GRAY"
      using lr c2 by (simp add: loop_rel_def only_cursor_def)
    moreover have "len g3 = len g"
      using loop_rel_len [OF lr] by simp
    ultimately show ?thesis using body by simp
  qed
  then obtain g3 t3 q3 where body: "dfs_body g v t q = Inr (g3, t3, q3)" and b3: "budget g3 q3"
    and l3: "len g3 = len g" and c3: "color (vertices g3 ! v) = GRAY" by blast
  have "length (items q3) < capacity q3"
    using vlen c3 l3 by (intro budget_room [OF b3]) simp_all
  then obtain q' where "Queue_Enqueue q3 (data (vertices (leave g3 v (t3 + 1)) ! v)) = Inr q'"
    using Queue_Enqueue_room by blast
  with body vl have "dfs_topol_traverse g v t q = Inr (leave g3 v (t3 + 1), t3 + 1, q')"
    by (simp add: traverse_bind)
  then show ?case by blast
next
  case (neighbors g v t q)
  note inv = neighbors.prems(1) and vlen = neighbors.prems(2) and gray = neighbors.prems(3)
    and bud = neighbors.prems(4) and cok = neighbors.prems(5)
  note ll = Graph_inv_len [OF inv]
  from vlen ll have vl: "v < length (vertices g)" by simp
  from cok show ?case
  proof (cases rule: cursor_ok_cases)
    case at_end
    with vl have "dfs_neighbors g v t q = Inr (g, t, q)"
      by (simp add: neighbors_bind)
    then show ?thesis by blast
  next
    case (entry d x)
    let ?w = "nat (index d)"
    from Graph_inv_entry [OF inv vlen entry(3)] have
      w: "Graph_GetVertexByIndex g (index d) = Inr ?w" and wlen: "?w < len g" by simp_all
    have "\<exists>r. dfs_visit_nbr g v ?w t q = Inr r"
    proof (cases "color (vertices g ! ?w) = WHITE")
      case True
      let ?gd = "discover g v ?w"
      have wl: "?w < length (vertices g)" using wlen ll by simp
      have "Graph_inv ?gd" using inv same_shape_discover by (rule Graph_inv_same_shape)
      moreover have "?w < len ?gd" using wlen by simp
      moreover have "color (vertices ?gd ! ?w) = GRAY" using wl by (simp add: nth_discover)
      moreover have "budget ?gd q"
        using blk_discover [OF True] ll by (intro budget_pre [OF bud]) simp_all
      ultimately have "\<exists>r. dfs_topol_traverse ?gd ?w t q = Inr r"
        by (rule neighbors.hyps(1) [OF vl entry(1,2) w True])
      with True show ?thesis by (simp add: dfs_visit_nbr_def Vertex_GetColor_def)
    next
      case False
      then show ?thesis by (simp add: dfs_visit_nbr_def Vertex_GetColor_def)
    qed
    then obtain g3 t3 q3 where n: "dfs_visit_nbr g v ?w t q = Inr (g3, t3, q3)"
      by (auto simp: split_paired_Ex)
    note f = visit_nbr_facts [OF n inv vlen gray wlen bud]
    have nx: "Vertex_Next (vertices g3 ! v) = Inr x"
      using entry(4) f(2) by simp
    let ?g1 = "upd_vertex g3 v (\<lambda>_. x)"
    have len3: "length (vertices g3) = length (vertices g)" "len g3 = len g"
      using f(1) by (simp_all add: same_shape_def)
    have oc: "only_cursor (vertices g3 ! v) x" using nx by (rule Vertex_Next_only_cursor)
    have i3: "Graph_inv g3" using inv f(1) by (rule Graph_inv_same_shape)
    then have i1: "Graph_inv ?g1" using same_shape_cursor [OF oc] by (rule Graph_inv_same_shape)
    have l1: "v < len ?g1" using vlen len3 by simp
    have c1: "color (vertices ?g1 ! v) = GRAY"
      using oc gray f(2) vl len3 by (simp add: nth_upd_vertex only_cursor_def)
    have b1: "budget ?g1 q3"
      using blk_cursor [OF oc] ll len3 by (intro budget_pre [OF f(3)]) simp_all
    have k1: "cursor_ok (vertices ?g1 ! v)"
      using cursor_ok_Next [OF nx] vl len3 by (simp add: nth_upd_vertex)
    from neighbors.hyps(2) [OF vl entry(1,2) w n nx i1 l1 c1 b1 k1] obtain r where
      "dfs_neighbors ?g1 v t3 q3 = Inr r" by blast
    with vl entry(1,2) w n nx have "dfs_neighbors g v t q = Inr r"
      by (subst neighbors_bind) simp
    then show ?thesis by blast
  qed
qed

section \<open>Reset, start and result of \<^verbatim>\<open>dfs_topol\<close>\<close>

declare dfs_reset.simps [simp del] dfs_report.simps [simp del]

lemma dfs_reset_succeeds:
  "len g \<le> length (vertices g) \<Longrightarrow>
   \<exists>g'. dfs_reset g i = Inr g' \<and> length (vertices g') = length (vertices g) \<and> len g' = len g \<and>
        size' g' = size' g \<and> type' g' = type' g \<and>
        (\<forall>u<length (vertices g). vertices g' ! u =
            (if i \<le> u \<and> u < len g then reset_vertex (vertices g ! u) else vertices g ! u))"
proof (induction g i rule: dfs_reset.induct)
  case (1 g i)
  show ?case
  proof (cases "i < len g")
    case False
    then have "dfs_reset g i = Inr g"
      by (subst dfs_reset.simps) (simp add: Graph_GetLen_def)
    with False show ?thesis by auto
  next
    case True
    let ?g4 = "upd_vertex g i reset_vertex"
    have il: "i < length (vertices g)" using True "1.prems" by simp
    have idx: "Graph_GetVertexByIndex g (int i) = Inr i"
      using True il by (simp add: GetVertexByIndex_Inr)
    have g4: "upd_vertex (upd_vertex (upd_vertex (upd_vertex g i (\<lambda>x. Vertex_SetColor x WHITE)) i
                (\<lambda>x. Vertex_SetPredecessor x (- 1))) i (\<lambda>x. Vertex_SetDiscovery_time x 0)) i
                (\<lambda>x. Vertex_SetFinish_time x 0) = ?g4"
      using il
      by (simp add: upd_vertex_def reset_vertex_def Vertex_SetColor_def Vertex_SetPredecessor_def
          Vertex_SetDiscovery_time_def Vertex_SetFinish_time_def)
    have step: "dfs_reset g i = dfs_reset ?g4 (Suc i)"
      using True idx by (subst dfs_reset.simps) (simp add: Graph_GetLen_def Let_def g4)
    have "len ?g4 \<le> length (vertices ?g4)" using "1.prems" by simp
    from "1.IH" [OF _ idx refl refl refl refl, unfolded g4, OF _ this] True
    obtain g' where g': "dfs_reset ?g4 (Suc i) = Inr g'" "length (vertices g') = length (vertices g)"
      "len g' = len g" "size' g' = size' g" "type' g' = type' g"
      "\<forall>u<length (vertices g). vertices g' ! u =
            (if Suc i \<le> u \<and> u < len g then reset_vertex (vertices ?g4 ! u) else vertices ?g4 ! u)"
      by (auto simp: Graph_GetLen_def)
    have "\<forall>u<length (vertices g). vertices g' ! u =
            (if i \<le> u \<and> u < len g then reset_vertex (vertices g ! u) else vertices g ! u)"
      using g'(6) True il by (auto simp: nth_upd_vertex)
    with g' step show ?thesis by simp
  qed
qed

lemma dfs_reset_step:
  assumes "i < len g" "i < length (vertices g)"
  shows "dfs_reset g i = dfs_reset (upd_vertex g i reset_vertex) (Suc i)"
proof -
  have idx: "Graph_GetVertexByIndex g (int i) = Inr i"
    using assms by (simp add: GetVertexByIndex_Inr)
  have g4: "upd_vertex (upd_vertex (upd_vertex (upd_vertex g i (\<lambda>x. Vertex_SetColor x WHITE)) i
                (\<lambda>x. Vertex_SetPredecessor x (- 1))) i (\<lambda>x. Vertex_SetDiscovery_time x 0)) i
                (\<lambda>x. Vertex_SetFinish_time x 0) = upd_vertex g i reset_vertex"
    using assms(2)
    by (simp add: upd_vertex_def reset_vertex_def Vertex_SetColor_def Vertex_SetPredecessor_def
        Vertex_SetDiscovery_time_def Vertex_SetFinish_time_def)
  show ?thesis
    using assms(1) idx by (subst dfs_reset.simps) (simp add: Graph_GetLen_def Let_def g4)
qed

lemma dfs_reset_beyond:
  assumes "i < len g" "\<not> i < length (vertices g)"
  shows "dfs_reset g i = Inl OutOfBounds"
  using assms by (subst dfs_reset.simps) (simp add: Graph_GetLen_def Graph_GetVertexByIndex_def)

lemma dfs_reset_Inr_len:
  "dfs_reset g i = Inr g' \<Longrightarrow> i \<le> len g \<Longrightarrow> i \<le> length (vertices g) \<Longrightarrow>
   len g \<le> length (vertices g)"
proof (induction "len g - i" arbitrary: g i)
  case 0
  then show ?case by simp
next
  case (Suc n)
  then have il: "i < len g" by simp
  show ?case
  proof (cases "i < length (vertices g)")
    case False
    with il Suc.prems(1) show ?thesis by (simp add: dfs_reset_beyond)
  next
    case True
    let ?g4 = "upd_vertex g i reset_vertex"
    have "dfs_reset ?g4 (Suc i) = Inr g'"
      using Suc.prems(1) dfs_reset_step [OF il True] by simp
    moreover have "n = len ?g4 - Suc i" using Suc.hyps(2) by simp
    moreover have "Suc i \<le> len ?g4" using il by simp
    moreover have "Suc i \<le> length (vertices ?g4)" using True by simp
    ultimately have "len ?g4 \<le> length (vertices ?g4)"
      by (intro Suc.hyps(1))
    then show ?thesis by simp
  qed
qed

lemma key_from_cong:
  "len g' = len g \<Longrightarrow> (\<And>u. u < len g \<Longrightarrow> data (vertices g' ! u) = data (vertices g ! u)) \<Longrightarrow>
   key_from g' k i = key_from g k i"
proof (induction g k i rule: key_from.induct)
  case (1 g key i)
  show ?case
  proof (cases "i < len g")
    case True
    with 1 show ?thesis
      by (subst key_from.simps, subst (2) key_from.simps) (simp add: Graph_GetLen_def)
  next
    case False
    with 1 show ?thesis
      by (subst key_from.simps, subst (2) key_from.simps) (simp add: Graph_GetLen_def)
  qed
qed

lemma GetVertexByKey_cong:
  "len g' = len g \<Longrightarrow> (\<And>u. u < len g \<Longrightarrow> data (vertices g' ! u) = data (vertices g ! u)) \<Longrightarrow>
   Graph_GetVertexByKey g' k = Graph_GetVertexByKey g k"
  unfolding Graph_GetVertexByKey_def by (rule key_from_cong)

lemma GetVertexByKey_present:
  assumes "u < len g"
  shows "\<exists>s. Graph_GetVertexByKey g (data (vertices g ! u)) = Some s"
proof (rule ccontr)
  assume "\<not> ?thesis"
  then have n: "Graph_GetVertexByKey g (data (vertices g ! u)) = None" by simp
  have "\<exists>k. k < len g \<and> data (vertices g ! k) = data (vertices g ! u) \<and>
            (\<forall>j<k. data (vertices g ! j) \<noteq> data (vertices g ! u))"
    using assms
    by (intro exI [of _ "LEAST k. k < len g \<and> data (vertices g ! k) = data (vertices g ! u)"])
       (metis (mono_tags, lifting) LeastI not_less_Least less_trans)
  then obtain k where "k < len g" "data (vertices g ! k) = data (vertices g ! u)"
    "\<forall>j<k. data (vertices g ! j) \<noteq> data (vertices g ! u)" by blast
  then have "Graph_GetVertexByKey g (data (vertices g ! u)) = Some k"
    unfolding Graph_GetVertexByKey_def by (intro key_from_first) simp_all
  with n show False by simp
qed

lemma visit_unfold:
  assumes ll: "len g \<le> length (vertices g)" and key: "Graph_GetVertexByKey g k = Some s"
  shows "\<exists>g1. dfs_reset g 0 = Inr g1 \<and> len g1 = len g \<and> length (vertices g1) = length (vertices g) \<and>
           (\<forall>u<len g. vertices g1 ! u = reset_vertex (vertices g ! u)) \<and>
           started g s (upd_vertex g1 s (\<lambda>x. Vertex_SetColor x GRAY)) \<and>
           dfs_topol_visit g k =
             dfs_topol_traverse (upd_vertex g1 s (\<lambda>x. Vertex_SetColor x GRAY)) s 0 (Queue_New MAX_VERTICES)"
proof -
  from dfs_reset_succeeds [OF ll, of 0] obtain g1 where r: "dfs_reset g 0 = Inr g1"
    and s1: "length (vertices g1) = length (vertices g)" "len g1 = len g" "size' g1 = size' g"
    and n1: "\<forall>u<length (vertices g). vertices g1 ! u =
              (if u < len g then reset_vertex (vertices g ! u) else vertices g ! u)"
    by auto
  let ?g2 = "upd_vertex g1 s (\<lambda>x. Vertex_SetColor x GRAY)"
  have d1: "data (vertices g1 ! u) = data (vertices g ! u)" if "u < len g" for u
    using that n1 ll by (simp add: reset_vertex_def)
  have k1: "Graph_GetVertexByKey g1 k = Some s"
    using GetVertexByKey_cong [of g1 g k] s1 d1 key by simp
  have d2: "data (vertices ?g2 ! u) = data (vertices g1 ! u)" for u
    by (simp add: nth_upd_vertex Vertex_SetColor_def)
  have "Graph_GetVertexByKey ?g2 k = Graph_GetVertexByKey g1 k"
    by (rule GetVertexByKey_cong) (simp_all add: d2)
  with k1 have k2: "Graph_GetVertexByKey ?g2 k = Some s" by simp
  have v: "dfs_topol_visit g k = dfs_topol_traverse ?g2 s 0 (Queue_New MAX_VERTICES)"
    unfolding dfs_topol_visit_def by (simp add: r k1 k2 Let_def)
  from GetVertexByKey_Some [OF key] have sl: "s < len g" by simp
  have st: "started g s ?g2"
    unfolding started_def using s1 n1 sl
    by (auto simp: nth_upd_vertex Vertex_SetColor_def reset_vertex_def)
  from n1 ll have "\<forall>u<len g. vertices g1 ! u = reset_vertex (vertices g ! u)" by simp
  with r s1 st v show ?thesis by blast
qed

lemma started_nth:
  "started g s g2 \<Longrightarrow> len g \<le> length (vertices g) \<Longrightarrow> u < len g \<Longrightarrow>
   vertices g2 ! u = (reset_vertex (vertices g ! u))\<lparr>color := (if u = s then GRAY else WHITE)\<rparr>"
  by (simp add: started_def)

lemma started_succs:
  "started g s g2 \<Longrightarrow> u < length (vertices g) \<Longrightarrow> succs (vertices g2 ! u) = succs (vertices g ! u)"
  by (simp add: started_def succs_def nbr_entries_def reset_vertex_def)

lemma started_entries:
  "started g s g2 \<Longrightarrow> u < length (vertices g) \<Longrightarrow>
   nbr_entries (vertices g2 ! u) = nbr_entries (vertices g ! u)"
  by (simp add: started_def nbr_entries_def reset_vertex_def)

lemma started_data:
  "started g s g2 \<Longrightarrow> u < length (vertices g) \<Longrightarrow> data (vertices g2 ! u) = data (vertices g ! u)"
  by (simp add: started_def reset_vertex_def)

lemma started_edges:
  assumes "started g s g2"
  shows "edges g2 = edges g"
proof -
  have "len g2 = len g" "length (vertices g2) = length (vertices g)"
    using assms by (simp_all add: started_def)
  then show ?thesis
    unfolding edges_def using started_succs [OF assms] by auto
qed

lemma started_reachable: "started g s g2 \<Longrightarrow> reachable g2 v = reachable g v"
  by (simp add: reachable_def started_edges)

lemma started_inv:
  assumes "started g s g2" "Graph_inv g"
  shows "Graph_inv g2"
proof -
  note ll = Graph_inv_len [OF assms(2)]
  have s: "len g2 = len g" "length (vertices g2) = length (vertices g)" "size' g2 = size' g"
    using assms(1) by (simp_all add: started_def)
  have "nbr_entries (vertices g2 ! u) = nbr_entries (vertices g ! u)" if "u < len g" for u
    using that ll by (intro started_entries [OF assms(1)]) simp
  with assms(2) s show ?thesis by (simp add: Graph_inv_iff)
qed

lemma started_color:
  "started g s g2 \<Longrightarrow> len g \<le> length (vertices g) \<Longrightarrow> u < len g \<Longrightarrow>
   color (vertices g2 ! u) = (if u = s then GRAY else WHITE)"
  by (simp add: started_nth)

lemma started_black_closed:
  assumes "started g s g2" "len g \<le> length (vertices g)"
  shows "black_closed g2"
proof -
  have "len g2 = len g" using assms(1) by (simp add: started_def)
  then show ?thesis
    unfolding black_closed_def using started_color [OF assms] by auto
qed

lemma started_budget:
  assumes "started g s g2" "len g \<le> capacity q" "items q = []"
  shows "budget g2 q"
proof -
  have "len g2 = len g" using assms(1) by (simp add: started_def)
  then have "nonblack g2 \<subseteq> {u. u < len g}" by (auto simp: nonblack_def)
  then have "card (nonblack g2) \<le> card {u. u < len g}"
    by (intro card_mono) simp_all
  with assms(2,3) show ?thesis by (simp add: budget_def)
qed

lemma visit_Inr_len:
  assumes "dfs_topol_visit g k = Inr r"
  shows "len g \<le> length (vertices g)"
proof -
  from assms obtain g1 where "dfs_reset g 0 = Inr g1"
    unfolding dfs_topol_visit_def by (auto simp: bind_err_eq_Inr)
  then show ?thesis by (rule dfs_reset_Inr_len) simp_all
qed

lemma visit_succeeds:
  assumes inv: "Graph_inv g" and key: "Graph_GetVertexByKey g k = Some s"
    and small: "len g \<le> MAX_VERTICES"
  shows "\<exists>r. dfs_topol_visit g k = Inr r"
proof -
  note ll = Graph_inv_len [OF inv]
  from GetVertexByKey_Some [OF key] have sl: "s < len g" by simp
  from visit_unfold [OF ll key] obtain g1 where
    st: "started g s (upd_vertex g1 s (\<lambda>x. Vertex_SetColor x GRAY))"
    and v: "dfs_topol_visit g k =
             dfs_topol_traverse (upd_vertex g1 s (\<lambda>x. Vertex_SetColor x GRAY)) s 0 (Queue_New MAX_VERTICES)"
    by blast
  let ?g2 = "upd_vertex g1 s (\<lambda>x. Vertex_SetColor x GRAY)"
  have l2: "len ?g2 = len g" using st by (simp add: started_def)
  have "\<exists>r. dfs_topol_traverse ?g2 s 0 (Queue_New MAX_VERTICES) = Inr r"
  proof (rule dfs_succeeds(1))
    show "Graph_inv ?g2" using st inv by (rule started_inv)
    show "s < len ?g2" using sl l2 by simp
    show "color (vertices ?g2 ! s) = GRAY" using started_color [OF st ll sl] by simp
    show "budget ?g2 (Queue_New MAX_VERTICES)"
      using st small by (intro started_budget) (simp_all add: Queue_New_def)
  qed
  with v show ?thesis by simp
qed

lemma skel_entries: "skel x = skel y \<Longrightarrow> nbr_entries x = nbr_entries y"
  by (cases "neighbors x"; cases "neighbors y") (auto simp: skel_def nbr_entries_def)

lemma same_shape_entries:
  "same_shape g g' \<Longrightarrow> u < length (vertices g) \<Longrightarrow>
   nbr_entries (vertices g' ! u) = nbr_entries (vertices g ! u)"
  by (rule skel_entries) (rule same_shape_skel)

lemma entry_ok_len: "len g' = len g \<Longrightarrow> entry_ok g' d = entry_ok g d"
  by (simp add: entry_ok_def)

lemma entries_start: "Vertex_Start y = Inr x \<Longrightarrow> passed x = 0 \<and> nbr_entries x = nbr_entries y"
  by (auto simp: Vertex_Start_Inr passed_def nbr_entries_def)

lemma entries_end: "Vertex_End y = Inr True \<Longrightarrow> drop (passed y) (nbr_entries y) = []"
  by (auto simp: Vertex_End_Inr passed_def nbr_entries_def)

lemma entries_step:
  assumes "Vertex_GetNeighborIndex y = Inr d" "Vertex_Next y = Inr x"
  shows "drop (passed y) (nbr_entries y) = d # drop (passed x) (nbr_entries x)"
    and "nbr_entries x = nbr_entries y"
proof -
  from assms(1) obtain l i where l: "neighbors y = Some l" "cursor l = Some i"
    "i < length (entries l)" "d = entries l ! i"
    by (auto simp: Vertex_GetNeighborIndex_Inr)
  with assms(2) have x: "neighbors x = Some (l\<lparr>cursor := (if Suc i < length (entries l) then Some (Suc i) else None)\<rparr>)"
    by (auto simp: Vertex_Next_Inr)
  have p: "passed y = i" "passed x = Suc i"
    using l x by (auto simp: passed_def)
  show s: "nbr_entries x = nbr_entries y"
    using l x by (simp add: nbr_entries_def)
  have "drop i (nbr_entries y) = nbr_entries y ! i # drop (Suc i) (nbr_entries y)"
    using l by (intro Cons_nth_drop_Suc [symmetric]) (simp add: nbr_entries_def)
  moreover have "nbr_entries y ! i = d"
    using l by (simp add: nbr_entries_def)
  ultimately show "drop (passed y) (nbr_entries y) = d # drop (passed x) (nbr_entries x)"
    by (simp add: p s)
qed

lemma black_validI:
  assumes "same_shape g g'"
    and "\<And>u. u < length (vertices g) \<Longrightarrow> u < len g \<Longrightarrow> color (vertices g' ! u) = BLACK \<Longrightarrow>
           color (vertices g ! u) \<noteq> BLACK \<Longrightarrow>
           \<forall>d\<in>set (nbr_entries (vertices g ! u)). entry_ok g d"
    and "black_valid g"
  shows "black_valid g'"
  unfolding black_valid_def
proof (intro allI impI)
  fix u
  assume u: "u < len g'" "u < length (vertices g')" "color (vertices g' ! u) = BLACK"
  from assms(1) have s: "len g' = len g" "length (vertices g') = length (vertices g)"
    by (simp_all add: same_shape_def)
  from u s have ul: "u < len g" "u < length (vertices g)" by simp_all
  have e: "nbr_entries (vertices g' ! u) = nbr_entries (vertices g ! u)"
    using assms(1) ul(2) by (rule same_shape_entries)
  have "\<forall>d\<in>set (nbr_entries (vertices g ! u)). entry_ok g d"
  proof (cases "color (vertices g ! u) = BLACK")
    case True
    with assms(3) ul show ?thesis by (simp add: black_valid_def)
  next
    case False
    with ul u(3) show ?thesis by (intro assms(2))
  qed
  then show "\<forall>d\<in>set (nbr_entries (vertices g' ! u)). entry_ok g' d"
    by (simp add: e entry_ok_len [OF s(1)])
qed

lemma black_valid_enter:
  assumes "black_valid g" "v < length (vertices g)" "color (vertices g ! v) = GRAY"
  shows "black_valid (enter g v t)"
proof (rule black_validI [OF _ _ assms(1)])
  show "same_shape g (enter g v t)" by (rule same_shape_enter)
qed (use assms in \<open>auto simp: nth_enter split: if_splits\<close>)

lemma black_valid_discover:
  assumes "black_valid g" "color (vertices g ! w) = WHITE"
  shows "black_valid (discover g v w)"
proof (rule black_validI [OF _ _ assms(1)])
  show "same_shape g (discover g v w)" by (rule same_shape_discover)
qed (use assms in \<open>auto simp: nth_discover split: if_splits\<close>)

lemma black_valid_cursor:
  assumes "black_valid g" "only_cursor (vertices g ! v) x"
  shows "black_valid (upd_vertex g v (\<lambda>_. x))"
proof (rule black_validI [OF _ _ assms(1)])
  show "same_shape g (upd_vertex g v (\<lambda>_. x))" using assms(2) by (rule same_shape_cursor)
qed (use assms in \<open>auto simp: nth_upd_vertex only_cursor_def split: if_splits\<close>)

lemma black_valid_leave:
  assumes "black_valid g" "v < length (vertices g)"
    and "\<forall>d\<in>set (nbr_entries (vertices g ! v)). entry_ok g d"
  shows "black_valid (leave g v t)"
proof (rule black_validI [OF _ _ assms(1)])
  show "same_shape g (leave g v t)" by (rule same_shape_leave)
next
  fix u
  assume "u < length (vertices g)" "color (vertices (leave g v t) ! u) = BLACK"
    "color (vertices g ! u) \<noteq> BLACK"
  then have "u = v" by (auto simp: nth_leave split: if_splits)
  with assms(3) show "\<forall>d\<in>set (nbr_entries (vertices g ! u)). entry_ok g d" by simp
qed

lemma dfs_valid:
  "dfs_topol_traverse g v t q = Inr (g', t', q') \<Longrightarrow> v < len g \<Longrightarrow>
     color (vertices g ! v) = GRAY \<Longrightarrow> black_valid g \<longrightarrow> black_valid g'"
  "dfs_neighbors g v t q = Inr (g', t', q') \<Longrightarrow> v < len g \<Longrightarrow>
     color (vertices g ! v) = GRAY \<Longrightarrow> black_valid g \<longrightarrow> black_valid g' \<and> rest_valid g v"
proof -
  let ?PV = "\<lambda>g (v::nat) (t::int) (q::Queue) g' (t'::int) (q'::Queue). black_valid g \<longrightarrow> black_valid g'"
  let ?PL = "\<lambda>g v (t::int) (q::Queue) g' (t'::int) (q'::Queue).
               black_valid g \<longrightarrow> black_valid g' \<and> rest_valid g v"
  have Leaf: "?PV g v t q (leave (enter g v (t + 1)) v (t + 2)) (t + 2) q'"
    if 1: "v < length (vertices g)" "v < len g" "color (vertices g ! v) = GRAY"
       "neighbors (vertices g ! v) = None" "Queue_Enqueue q (data (vertices g ! v)) = Inr q'"
    for g v t q q'
  proof
    assume "black_valid g"
    then have "black_valid (enter g v (t + 1))"
      using 1 by (intro black_valid_enter)
    moreover have "nbr_entries (vertices (enter g v (t + 1)) ! v) = []"
      using 1 by (simp add: nth_enter nbr_entries_def)
    ultimately show "black_valid (leave (enter g v (t + 1)) v (t + 2))"
      using 1 by (intro black_valid_leave) simp_all
  qed
  have Inner: "?PV g v t q (leave g3 v (t3 + 1)) (t3 + 1) q'"
    if 2: "v < length (vertices g)" "v < len g" "color (vertices g ! v) = GRAY"
       "Vertex_Start (vertices (enter g v (t + 1)) ! v) = Inr x"
       "loop_rel (upd_vertex (enter g v (t + 1)) v (\<lambda>_. x)) v (t + 1) g3 t3"
       "?PL (upd_vertex (enter g v (t + 1)) v (\<lambda>_. x)) v (t + 1) q g3 t3 q3"
       "Queue_Enqueue q3 (data (vertices g ! v)) = Inr q'"
    for g v t q x g3 t3 q3 q'
  proof
    let ?g2 = "upd_vertex (enter g v (t + 1)) v (\<lambda>_. x)"
    assume "black_valid g"
    then have "black_valid (enter g v (t + 1))"
      using 2 by (intro black_valid_enter)
    then have "black_valid ?g2"
      using Vertex_Start_only_cursor [OF 2(4)] by (rule black_valid_cursor)
    with 2(6) have b3: "black_valid g3" and c: "rest_valid ?g2 v"
      by simp_all
    from 2(5) have sh: "same_shape ?g2 g3" by (simp add: loop_rel_def)
    have len3: "length (vertices g3) = length (vertices g)" "len g3 = len ?g2"
      using sh by (simp_all add: same_shape_def)
    have "nbr_entries (vertices g3 ! v) = nbr_entries (vertices ?g2 ! v)"
      using sh 2(1) by (intro same_shape_entries) simp_all
    moreover have "passed (vertices ?g2 ! v) = 0"
      using entries_start [OF 2(4)] 2(1) by (simp add: nth_upd_vertex)
    ultimately have "\<forall>d\<in>set (nbr_entries (vertices g3 ! v)). entry_ok g3 d"
      using c by (simp add: rest_valid_def entry_ok_len [OF len3(2)])
    with b3 show "black_valid (leave g3 v (t3 + 1))"
      using 2(1) len3 by (intro black_valid_leave) simp_all
  qed
  have At_end: "?PL g v t q g t q"
    if "v < length (vertices g)" "v < len g" "color (vertices g ! v) = GRAY"
       "Vertex_End (vertices g ! v) = Inr True"
    for g v t q
    using that by (simp add: rest_valid_def entries_end)
  have Seen: "?PL g v t q g' t' q'"
    if 4: "v < length (vertices g)" "v < len g" "color (vertices g ! v) = GRAY"
       "Vertex_End (vertices g ! v) = Inr False" "Vertex_GetNeighborIndex (vertices g ! v) = Inr d"
       "Graph_GetVertexByIndex g (index d) = Inr w" "color (vertices g ! w) \<noteq> WHITE"
       "Vertex_Next (vertices g ! v) = Inr x"
       "loop_rel (upd_vertex g v (\<lambda>_. x)) v t g' t'"
       "?PL (upd_vertex g v (\<lambda>_. x)) v t q g' t' q'"
    for g v t q d w x g' t' q'
  proof
    let ?g1 = "upd_vertex g v (\<lambda>_. x)"
    assume "black_valid g"
    then have "black_valid ?g1"
      using Vertex_Next_only_cursor [OF 4(8)] by (rule black_valid_cursor)
    with 4(10) have b: "black_valid g'" and c: "rest_valid ?g1 v"
      by simp_all
    from 4(6) have w: "entry_ok g d"
      by (simp add: GetVertexByIndex_Inr entry_ok_def)
    have "len ?g1 = len g" by simp
    note ok = entry_ok_len [OF this]
    have "rest_valid g v"
      using c entries_step [OF 4(5) 4(8)] 4(1) w by (simp add: rest_valid_def nth_upd_vertex ok)
    with b show "black_valid g' \<and> rest_valid g v" ..
  qed
  have White: "?PL g v t q g' t' q'"
    if 5: "v < length (vertices g)" "v < len g" "color (vertices g ! v) = GRAY"
       "Vertex_End (vertices g ! v) = Inr False" "Vertex_GetNeighborIndex (vertices g ! v) = Inr d"
       "Graph_GetVertexByIndex g (index d) = Inr w" "color (vertices g ! w) = WHITE"
       "visit_rel (discover g v w) w t g3 t3" "?PV (discover g v w) w t q g3 t3 q3"
       "vertices g3 ! v = vertices g ! v" "Vertex_Next (vertices g ! v) = Inr x"
       "loop_rel (upd_vertex g3 v (\<lambda>_. x)) v t3 g' t'"
       "?PL (upd_vertex g3 v (\<lambda>_. x)) v t3 q3 g' t' q'"
    for g v t q d w x g3 t3 q3 g' t' q'
  proof
    let ?g1 = "upd_vertex g3 v (\<lambda>_. x)"
    from 5(8) have len3: "length (vertices g3) = length (vertices g)" "len g3 = len g"
      by (simp_all add: visit_rel_def same_shape_def)
    assume "black_valid g"
    then have "black_valid (discover g v w)"
      using 5(7) by (rule black_valid_discover)
    with 5(9) have "black_valid g3" by simp
    moreover have "only_cursor (vertices g3 ! v) x"
      using Vertex_Next_only_cursor [OF 5(11)] by (simp only: 5(10))
    ultimately have "black_valid ?g1"
      by (rule black_valid_cursor)
    with 5(13) have b: "black_valid g'" and c: "rest_valid ?g1 v"
      by simp_all
    from 5(6) have w: "entry_ok g d"
      by (simp add: GetVertexByIndex_Inr entry_ok_def)
    have "len ?g1 = len g" using len3 by simp
    note ok = entry_ok_len [OF this]
    have "rest_valid g v"
      using c entries_step [OF 5(5) 5(11)] 5(1) w len3
      by (simp add: rest_valid_def nth_upd_vertex ok)
    with b show "black_valid g' \<and> rest_valid g v" ..
  qed
  note R = dfs_post [where PV = ?PV and PL = ?PL, OF Leaf Inner At_end Seen White]
  show "dfs_topol_traverse g v t q = Inr (g', t', q') \<Longrightarrow> v < len g \<Longrightarrow>
     color (vertices g ! v) = GRAY \<Longrightarrow> black_valid g \<longrightarrow> black_valid g'"
    by (rule R(1))
  show "dfs_neighbors g v t q = Inr (g', t', q') \<Longrightarrow> v < len g \<Longrightarrow>
     color (vertices g ! v) = GRAY \<Longrightarrow> black_valid g \<longrightarrow> black_valid g' \<and> rest_valid g v"
    by (rule R(2))
qed

lemma started_black_valid:
  assumes "started g s g2" "len g \<le> length (vertices g)"
  shows "black_valid g2"
proof -
  have "len g2 = len g" using assms(1) by (simp add: started_def)
  then show ?thesis
    unfolding black_valid_def using started_color [OF assms] by auto
qed

lemma traverse_from_start:
  assumes ll: "len g \<le> length (vertices g)" and st: "started g s g2" and sl: "s < len g"
    and run: "dfs_topol_traverse g2 s 0 q0 = Inr (g', t', q')" and q0: "items q0 = []"
  shows "length (vertices g') = length (vertices g)" and "len g' = len g"
    and "\<And>u. u < length (vertices g) \<Longrightarrow> data (vertices g' ! u) = data (vertices g ! u)"
    and "\<And>u. u < len g \<Longrightarrow> finish_time (vertices g' ! u) = 0"
    and "\<And>u. u \<in> reachable g s \<Longrightarrow>
           u < len g \<and> color (vertices g' ! u) = BLACK \<and> 2 \<le> discovery_time (vertices g' ! u)"
    and "\<And>u. u < len g \<Longrightarrow> u \<notin> reachable g s \<Longrightarrow> vertices g' ! u = reset_vertex (vertices g ! u)"
    and "discovery_time (vertices g' ! s) = t'"
    and "\<exists>fs. distinct (fs @ [s]) \<and> set (fs @ [s]) = reachable g s \<and>
           items q' = map (\<lambda>u. data (vertices g ! u)) (fs @ [s]) \<and> capacity q' = capacity q0 \<and>
           t' = 2 * int (length (fs @ [s])) \<and>
           sorted_wrt (<) (map (\<lambda>u. discovery_time (vertices g' ! u)) (fs @ [s])) \<and>
           (\<forall>u\<in>set (fs @ [s]). 0 < discovery_time (vertices g' ! u) \<and>
                                  discovery_time (vertices g' ! u) \<le> t')"
proof -
  have s2: "length (vertices g2) = length (vertices g)" "len g2 = len g"
    using st by (simp_all add: started_def)
  have sl2: "s < len g2" using sl s2 by simp
  have gray: "color (vertices g2 ! s) = GRAY" using started_color [OF st ll sl] by simp
  note R = dfs_rel(1) [OF run]
  from dfs_closed(1) [OF run sl2 gray] started_black_closed [OF st ll]
  have C: "black_closed g'" by simp
  from dfs_valid(1) [OF run sl2 gray] started_black_valid [OF st ll]
  have V: "black_valid g'" by simp
  note T = dfs_touched(1) [OF run sl2 gray]
  from dfs_finished(1) [OF run sl2 gray] obtain fs where
    F: "fin_seq g2 g' 0 t' (fs @ [s])" and Q: "recorded g2 q0 q' (fs @ [s])" by blast
  from R have sh: "same_shape g2 g'" by (simp add: visit_rel_def)
  show len': "length (vertices g') = length (vertices g)"
    using same_shape_length [OF sh] s2 by simp
  show lenn: "len g' = len g" using sh s2 by (simp add: same_shape_def)
  show dat: "data (vertices g' ! u) = data (vertices g ! u)" if "u < length (vertices g)" for u
    using same_shape_data [OF sh, of u] started_data [OF st that] that s2 by simp
  show "finish_time (vertices g' ! u) = 0" if "u < len g" for u
  proof -
    have "u < length (vertices g2)" using that ll s2 by simp
    from same_shape_skel [OF sh this]
    have "finish_time (vertices g' ! u) = finish_time (vertices g2 ! u)" by (simp add: skel_def)
    also have "\<dots> = 0" using started_nth [OF st ll that] by (simp add: reset_vertex_def)
    finally show ?thesis .
  qed
  have blackS: "color (vertices g' ! s) = BLACK" using R by (simp add: visit_rel_def)
  have col: "color (vertices g' ! u) = BLACK \<or> vertices g' ! u = vertices g2 ! u"
    if "u < len g" for u
  proof (cases "u = s")
    case True with blackS show ?thesis by simp
  next
    case False
    have "u < length (vertices g2)" using that ll s2 by simp
    with R False have "chg (0 + 1) (t' - 1) g2 g' u" by (simp add: visit_rel_def)
    then show ?thesis by (auto simp: chg_def)
  qed
  have stampS: "discovery_time (vertices g' ! s) = t'" "2 \<le> t'"
    using R by (simp_all add: visit_rel_def)
  have stamp: "2 \<le> discovery_time (vertices g' ! u)"
    if "u < len g" "color (vertices g' ! u) = BLACK" for u
  proof (cases "u = s")
    case True with stampS show ?thesis by simp
  next
    case False
    have "u < length (vertices g2)" using that ll s2 by simp
    with R False have "chg (0 + 1) (t' - 1) g2 g' u" by (simp add: visit_rel_def)
    moreover have "color (vertices g2 ! u) = WHITE"
      using started_color [OF st ll that(1)] False by simp
    ultimately show ?thesis using that(2) by (auto simp: chg_def)
  qed
  have blk0: "u < len g \<and> color (vertices g' ! u) = BLACK" if "u \<in> reachable g s" for u
  proof -
    from that have "(s, u) \<in> (edges g)\<^sup>*" by (simp add: reachable_def)
    then show ?thesis
    proof (induction rule: rtrancl_induct)
      case base
      show ?case using blackS sl by simp
    next
      case (step a b)
      from step(2) have al: "a < len g" "a < length (vertices g)"
        and b: "b \<in> set (succs (vertices g ! a))"
        by (simp_all add: edges_def)
      have e: "nbr_entries (vertices g' ! a) = nbr_entries (vertices g ! a)"
      proof -
        have "nbr_entries (vertices g' ! a) = nbr_entries (vertices g2 ! a)"
          using al s2 by (intro same_shape_entries [OF sh]) simp
        also have "\<dots> = nbr_entries (vertices g ! a)" using al by (intro started_entries [OF st])
        finally show ?thesis .
      qed
      from b obtain d where d: "d \<in> set (nbr_entries (vertices g ! a))" "b = nat (index d)"
        by (auto simp: succs_def)
      have "entry_ok g' d"
        using V step.IH al d(1) e len' lenn by (auto simp: black_valid_def)
      then have "0 \<le> index d" "index d < int (len g)" using lenn by (simp_all add: entry_ok_def)
      then have bl: "b < len g" unfolding d(2) by linarith
      have b': "b \<in> set (succs (vertices g' ! a))" using b e by (simp add: succs_def)
      have "color (vertices g' ! b) \<noteq> WHITE"
        using C step.IH al bl ll b' len' lenn by (auto simp: black_closed_def)
      moreover have "color (vertices g2 ! b) \<noteq> WHITE \<Longrightarrow> b = s"
        using started_color [OF st ll bl] by (simp split: if_splits)
      ultimately show ?case using col [OF bl] blackS bl by auto
    qed
  qed
  show blk: "u < len g \<and> color (vertices g' ! u) = BLACK \<and> 2 \<le> discovery_time (vertices g' ! u)"
    if "u \<in> reachable g s" for u
    using blk0 [OF that] stamp by simp
  have r2: "reachable g2 s = reachable g s" using st by (rule started_reachable)
  show unch: "vertices g' ! u = reset_vertex (vertices g ! u)"
    if "u < len g" "u \<notin> reachable g s" for u
  proof -
    have ul: "u < length (vertices g2)" using that ll s2 by simp
    have us: "u \<noteq> s" using that(2) by auto
    from T ul that(2) r2 have "vertices g' ! u = vertices g2 ! u"
      by (auto simp: touched_within_def)
    also have "\<dots> = reset_vertex (vertices g ! u)"
      using started_nth [OF st ll that(1)] us by (simp add: reset_vertex_def)
    finally show ?thesis .
  qed
  show "discovery_time (vertices g' ! s) = t'" by (rule stampS)
  from F [unfolded fin_seq_def] have d: "distinct (fs @ [s])"
    and se: "set (fs @ [s]) = blk g' - blk g2"
    and bound: "\<forall>u\<in>set (fs @ [s]). u < len g2"
    and tt: "t' = 0 + 2 * int (length (fs @ [s]))"
    and so: "sorted_wrt (<) (map (\<lambda>u. discovery_time (vertices g' ! u)) (fs @ [s]))"
    and rng: "\<forall>u\<in>set (fs @ [s]). 0 < discovery_time (vertices g' ! u) \<and>
                discovery_time (vertices g' ! u) \<le> t'"
    by blast+
  have "set (fs @ [s]) = reachable g s"
  proof (intro set_eqI iffI)
    fix u assume u: "u \<in> set (fs @ [s])"
    with bound s2 have ul: "u < len g" by auto
    from u se have "u \<in> blk g'" by blast
    then have b: "color (vertices g' ! u) = BLACK" by (simp add: blk_def)
    show "u \<in> reachable g s"
    proof (rule ccontr)
      assume "u \<notin> reachable g s"
      from unch [OF ul this] b show False by (simp add: reset_vertex_def)
    qed
  next
    fix u assume u: "u \<in> reachable g s"
    have ul: "u < len g" using blk0 [OF u] by simp
    have "u \<in> blk g'" using blk0 [OF u] ul ll len' by (simp add: blk_def)
    moreover have "u \<notin> blk g2" using started_color [OF st ll ul] by (simp add: blk_def)
    ultimately show "u \<in> set (fs @ [s])" using se by simp
  qed
  moreover have "items q' = map (\<lambda>u. data (vertices g ! u)) (fs @ [s])"
  proof -
    have "map (\<lambda>u. data (vertices g2 ! u)) (fs @ [s]) = map (\<lambda>u. data (vertices g ! u)) (fs @ [s])"
    proof (rule map_cong [OF refl])
      fix u assume "u \<in> set (fs @ [s])"
      with bound s2 ll have "u < length (vertices g)" by auto
      then show "data (vertices g2 ! u) = data (vertices g ! u)" by (rule started_data [OF st])
    qed
    with Q q0 show ?thesis by (simp add: recorded_def)
  qed
  moreover have "capacity q' = capacity q0" using Q by (simp add: recorded_def)
  moreover have "t' = 2 * int (length (fs @ [s]))" using tt by simp
  ultimately show "\<exists>fs. distinct (fs @ [s]) \<and> set (fs @ [s]) = reachable g s \<and>
           items q' = map (\<lambda>u. data (vertices g ! u)) (fs @ [s]) \<and> capacity q' = capacity q0 \<and>
           t' = 2 * int (length (fs @ [s])) \<and>
           sorted_wrt (<) (map (\<lambda>u. discovery_time (vertices g' ! u)) (fs @ [s])) \<and>
           (\<forall>u\<in>set (fs @ [s]). 0 < discovery_time (vertices g' ! u) \<and>
                                  discovery_time (vertices g' ! u) \<le> t')"
    using d so rng by blast
qed

lemma visit_result:
  assumes key: "Graph_GetVertexByKey g k = Some s"
    and run: "dfs_topol_visit g k = Inr (g', t', q')"
  shows "length (vertices g') = length (vertices g)" and "len g' = len g"
    and "len g \<le> length (vertices g)"
    and "\<And>u. u < length (vertices g) \<Longrightarrow> data (vertices g' ! u) = data (vertices g ! u)"
    and "\<And>u. u < len g \<Longrightarrow> finish_time (vertices g' ! u) = 0"
    and "\<And>u. u \<in> reachable g s \<Longrightarrow>
           u < len g \<and> color (vertices g' ! u) = BLACK \<and> 2 \<le> discovery_time (vertices g' ! u)"
    and "\<And>u. u < len g \<Longrightarrow> u \<notin> reachable g s \<Longrightarrow> vertices g' ! u = reset_vertex (vertices g ! u)"
    and "discovery_time (vertices g' ! s) = t'"
    and "\<exists>fs. distinct (fs @ [s]) \<and> set (fs @ [s]) = reachable g s \<and>
           items q' = map (\<lambda>u. data (vertices g ! u)) (fs @ [s]) \<and> capacity q' = MAX_VERTICES \<and>
           t' = 2 * int (length (fs @ [s])) \<and>
           sorted_wrt (<) (map (\<lambda>u. discovery_time (vertices g' ! u)) (fs @ [s])) \<and>
           (\<forall>u\<in>set (fs @ [s]). 0 < discovery_time (vertices g' ! u) \<and>
                                  discovery_time (vertices g' ! u) \<le> t')"
proof -
  show ll: "len g \<le> length (vertices g)" using run by (rule visit_Inr_len)
  from GetVertexByKey_Some [OF key] have sl: "s < len g" by simp
  from visit_unfold [OF ll key] obtain g1 where
    st: "started g s (upd_vertex g1 s (\<lambda>x. Vertex_SetColor x GRAY))"
    and v: "dfs_topol_visit g k =
             dfs_topol_traverse (upd_vertex g1 s (\<lambda>x. Vertex_SetColor x GRAY)) s 0 (Queue_New MAX_VERTICES)"
    by blast
  from run v have run': "dfs_topol_traverse (upd_vertex g1 s (\<lambda>x. Vertex_SetColor x GRAY)) s 0
      (Queue_New MAX_VERTICES) = Inr (g', t', q')" by simp
  have q0: "items (Queue_New MAX_VERTICES) = []" by (simp add: Queue_New_def)
  note X = traverse_from_start [OF ll st sl run' q0]
  show "length (vertices g') = length (vertices g)" by (rule X(1))
  show "len g' = len g" by (rule X(2))
  show "\<And>u. u < length (vertices g) \<Longrightarrow> data (vertices g' ! u) = data (vertices g ! u)"
    by (rule X(3))
  show "\<And>u. u < len g \<Longrightarrow> finish_time (vertices g' ! u) = 0" by (rule X(4))
  show "\<And>u. u \<in> reachable g s \<Longrightarrow>
           u < len g \<and> color (vertices g' ! u) = BLACK \<and> 2 \<le> discovery_time (vertices g' ! u)"
    by (rule X(5))
  show "\<And>u. u < len g \<Longrightarrow> u \<notin> reachable g s \<Longrightarrow> vertices g' ! u = reset_vertex (vertices g ! u)"
    by (rule X(6))
  show "discovery_time (vertices g' ! s) = t'" by (rule X(7))
  from X(8) show "\<exists>fs. distinct (fs @ [s]) \<and> set (fs @ [s]) = reachable g s \<and>
           items q' = map (\<lambda>u. data (vertices g ! u)) (fs @ [s]) \<and> capacity q' = MAX_VERTICES \<and>
           t' = 2 * int (length (fs @ [s])) \<and>
           sorted_wrt (<) (map (\<lambda>u. discovery_time (vertices g' ! u)) (fs @ [s])) \<and>
           (\<forall>u\<in>set (fs @ [s]). 0 < discovery_time (vertices g' ! u) \<and>
                                  discovery_time (vertices g' ! u) \<le> t')"
    by (simp add: Queue_New_def)
qed

lemma report_succeeds:
  "(\<And>x. x \<in> set (items q) \<Longrightarrow> \<exists>v. Graph_GetVertexByKey g x = Some v) \<Longrightarrow>
   \<exists>r. dfs_report g q i out = Inr r"
proof (induction "length (items q)" arbitrary: q i out rule: less_induct)
  case less
  show ?case
  proof (cases "i < Queue_Len q")
    case False
    then show ?thesis by (subst dfs_report.simps) simp
  next
    case True
    then obtain x xs where q: "items q = x # xs"
      by (cases "items q") (simp_all add: Queue_Len_def)
    let ?q = "q\<lparr>items := xs\<rparr>"
    have deq: "Queue_Dequeue q = Inr (x, ?q)" by (simp add: Queue_Dequeue_def q)
    from less.prems [of x] q obtain v where v: "Graph_GetVertexByKey g x = Some v" by auto
    have "\<exists>r. dfs_report g ?q (Suc i)
            (out @ [(i, Vertex_GetData (vertices g ! v), Vertex_GetPredecessor (vertices g ! v))]) = Inr r"
      using q less.prems by (intro less.hyps) simp_all
    then show ?thesis
      using True deq v by (subst dfs_report.simps) simp
  qed
qed

lemma topol_Inr:
  "dfs_topol g k = Inr (g', out) \<Longrightarrow> \<exists>t' q'. dfs_topol_visit g k = Inr (g', t', q')"
  unfolding dfs_topol_def by (auto simp: bind_err_eq_Inr)

lemma topol_succeeds:
  assumes inv: "Graph_inv g" and key: "Graph_GetVertexByKey g k = Some s"
    and small: "len g \<le> MAX_VERTICES"
  shows "\<exists>r. dfs_topol g k = Inr r"
proof -
  from visit_succeeds [OF inv key small] obtain g' t' q' where
    run: "dfs_topol_visit g k = Inr (g', t', q')" by (metis prod_cases3)
  note X = visit_result [OF key run]
  from X(9) obtain fs where s: "set (fs @ [s]) = reachable g s"
    and i: "items q' = map (\<lambda>u. data (vertices g ! u)) (fs @ [s])" by blast
  have "\<exists>v. Graph_GetVertexByKey g' x = Some v" if "x \<in> set (items q')" for x
  proof -
    from that i obtain u where u: "u \<in> set (fs @ [s])" "x = data (vertices g ! u)" by auto
    with s X(6) have ul: "u < len g" by blast
    with X(3) have "u < length (vertices g)" by simp
    with X(4) u have "x = data (vertices g' ! u)" by simp
    moreover have "u < len g'" using ul X(2) by simp
    ultimately show ?thesis using GetVertexByKey_present [of u g'] by simp
  qed
  then obtain r where "dfs_report g' q' 0 [] = Inr r"
    using report_succeeds [of q' g' 0 "[]"] by blast
  then show ?thesis
    unfolding dfs_topol_def by (cases r) (simp add: run)
qed

section \<open>The traversal on every graph\<close>

lemma demo_built: "main_graph = Inr demo_graph"
  unfolding demo_graph_def by code_simp

lemma demo_inv: "Graph_inv demo_graph"
  unfolding demo_graph_def by code_simp

lemma demo_key: "Graph_GetVertexByKey demo_graph 100 = Some 0"
  unfolding demo_graph_def by code_simp

lemma demo_len: "len demo_graph = 9" "length (vertices demo_graph) = 9"
  unfolding demo_graph_def by code_simp+

lemma demo_succs:
  "map (\<lambda>u. succs (vertices demo_graph ! u)) [0, 1, 2, 3, 4, 5, 6, 7, 8] =
     [[3], [3], [3], [5, 7], [5], [6], [8], [8], []]"
  unfolding demo_graph_def by code_simp

lemma demo_reachable_3: "3 \<in> reachable demo_graph 0"
proof -
  have "succs (vertices demo_graph ! 0) = [3]" using demo_succs by simp
  then have "(0, 3) \<in> edges demo_graph" by (simp add: edges_def demo_len)
  then show ?thesis by (auto simp: reachable_def)
qed

lemma demo_reachable_sub: "reachable demo_graph 0 \<subseteq> {0, 3, 5, 6, 7, 8}"
proof
  fix u assume "u \<in> reachable demo_graph 0"
  then have "(0, u) \<in> (edges demo_graph)\<^sup>*" by (simp add: reachable_def)
  then show "u \<in> {0, 3, 5, 6, 7, 8}"
  proof (induction rule: rtrancl_induct)
    case base
    show ?case by simp
  next
    case (step a b)
    from step(2) have "b \<in> set (succs (vertices demo_graph ! a))" by (simp add: edges_def)
    with step.IH demo_succs show ?case by auto
  qed
qed



text \<open>
  C4. For every graph and every start key that names a populated vertex \<open>s\<close>: whenever
  \<^verbatim>\<open>dfs_topol\<close> returns, every vertex reachable from \<open>s\<close> is a populated vertex coloured
  BLACK and every populated vertex that is not reachable from \<open>s\<close> is WHITE. On a
  well-formed graph of at most \<^verbatim>\<open>MAX_VERTICES\<close> vertices \<^verbatim>\<open>dfs_topol\<close> does return.
\<close>

theorem C4_reachable_black_others_white:
  assumes "Graph_GetVertexByKey g k = Some s"
  shows "(Graph_inv g \<and> len g \<le> MAX_VERTICES \<longrightarrow> (\<exists>r. dfs_topol g k = Inr r)) \<and>
         (\<forall>g' out. dfs_topol g k = Inr (g', out) \<longrightarrow>
            (\<forall>u. u \<in> reachable g s \<longrightarrow> u < len g \<and> color (vertices g' ! u) = BLACK) \<and>
            (\<forall>u. u < len g \<and> u \<notin> reachable g s \<longrightarrow> color (vertices g' ! u) = WHITE))"
proof (intro conjI allI impI)
  assume "Graph_inv g \<and> len g \<le> MAX_VERTICES"
  then show "\<exists>r. dfs_topol g k = Inr r"
    using assms by (intro topol_succeeds [of g k s]) simp_all
next
  fix g' out u
  assume "dfs_topol g k = Inr (g', out)"
  then obtain t' q' where run: "dfs_topol_visit g k = Inr (g', t', q')"
    using topol_Inr by blast
  {
    assume "u \<in> reachable g s"
    from visit_result(6) [OF assms run this]
    show "u < len g" and "color (vertices g' ! u) = BLACK" by simp_all
  next
    assume "u < len g \<and> u \<notin> reachable g s"
    then have "vertices g' ! u = reset_vertex (vertices g ! u)"
      using visit_result(7) [OF assms run] by simp
    then show "color (vertices g' ! u) = WHITE" by (simp add: reset_vertex_def)
  }
qed

theorem C4_colours_witness:
  "Graph_GetVertexByKey demo_graph 100 = Some 0 \<and> Graph_inv demo_graph \<and>
   len demo_graph \<le> MAX_VERTICES \<and> 3 \<in> reachable demo_graph 0 \<and>
   1 < len demo_graph \<and> 1 \<notin> reachable demo_graph 0 \<and>
   (\<exists>g' out. dfs_topol demo_graph 100 = Inr (g', out) \<and>
      color (vertices g' ! 3) = BLACK \<and> color (vertices g' ! 1) = WHITE)"
proof -
  have h1: "Graph_GetVertexByKey demo_graph 100 = Some 0"
    unfolding demo_graph_def by code_simp
  have h2: "Graph_inv demo_graph \<and> len demo_graph \<le> MAX_VERTICES"
    unfolding demo_graph_def by code_simp
  have h3: "3 \<in> reachable demo_graph 0" by (rule demo_reachable_3)
  have h4: "1 < len demo_graph \<and> 1 \<notin> reachable demo_graph 0"
    using demo_reachable_sub by (auto simp: demo_len)
  note T = C4_reachable_black_others_white [OF h1]
  from T h2 obtain r where "dfs_topol demo_graph 100 = Inr r" by blast
  then obtain g' out where run: "dfs_topol demo_graph 100 = Inr (g', out)"
    by (cases r) simp
  from T run h3 have "color (vertices g' ! 3) = BLACK" by blast
  moreover from T run h4 have "color (vertices g' ! 1) = WHITE" by blast
  ultimately show ?thesis using h1 h2 h3 h4 run by blast
qed






end
